theory Spec2Isabelle
  imports Complex_Main "HOL-Library.Word" "HOL-Library.Monad_Syntax"
begin

unbundle bit_operations_syntax

section \<open>Bytes, byte strings and pointers\<close>

text \<open>
  A \<^verbatim>\<open>uint8_t\<close> is an 8-bit word; a \<^verbatim>\<open>std::vector<uint8_t>\<close>, a
  \<^verbatim>\<open>std::string\<close> and a (pointer, length) pair of the C sources are lists of bytes. \<open>str\<close> gives the bytes
  of a C string literal, so that \<open>cmd[0] == "get"\<close> reads \<open>cmd ! 0 = str ''get''\<close>.
\<close>

type_synonym byte = "8 word"
type_synonym bytes = "byte list"

definition str :: "string \<Rightarrow> bytes" where
  "str s = map of_char s"

section \<open>The FNV hash (\<open>str_hash\<close>, common.h and CustomHashtable/main.cpp)\<close>

text \<open>
  \<^verbatim>\<open>
  uint64_t str_hash(const uint8_t *data, size_t len) {
      uint32_t h = 0x811C9DC5;
      for (size_t i = 0; i < len; i++) { h = (h + data[i]) * 0x01000193; }
      return h;
  }
  \<close>
  The accumulator is a \<open>uint32_t\<close>: \<open>+\<close> and \<open>*\<close> on \<open>32 word\<close> wrap as the C
  arithmetic does. The result is widened to \<open>uint64_t\<close> on return.
\<close>

fun str_hash_loop :: "32 word \<Rightarrow> bytes \<Rightarrow> 32 word" where
  "str_hash_loop h [] = h"
| "str_hash_loop h (b # data) = str_hash_loop ((h + ucast b) * 0x01000193) data"

definition str_hash :: "bytes \<Rightarrow> 64 word" where
  "str_hash data = ucast (str_hash_loop 0x811C9DC5 data)"

text \<open>
  The accumulation as the claim words it, on natural numbers with the reduction modulo
  \<open>2 ^ 32\<close> written out; \<open>str_hash\<close> is compared with it below.
\<close>

fun fnv_acc :: "nat \<Rightarrow> bytes \<Rightarrow> nat" where
  "fnv_acc h [] = h"
| "fnv_acc h (b # data) = fnv_acc (((h + unat b) * 0x01000193) mod 2 ^ 32) data"

section \<open>Wire format: 32-bit little-endian integers and the request parser\<close>

text \<open>
  \<^verbatim>\<open>memcpy(&out, cur, 4)\<close> into a \<^verbatim>\<open>uint32_t\<close> and \<^verbatim>\<open>buf_append(out, (const uint8_t *)&x, 4)\<close>
  read and write the four bytes of the integer in the host's byte order; the protocol is
  little-endian, and so is the model.
\<close>

definition u32_of_bytes :: "bytes \<Rightarrow> 32 word" where
  "u32_of_bytes bs =
     of_nat (unat (bs ! 0) + 256 * unat (bs ! 1) + 65536 * unat (bs ! 2) + 16777216 * unat (bs ! 3))"

definition bytes_of_u32 :: "32 word \<Rightarrow> bytes" where
  "bytes_of_u32 w = [ucast w, ucast (drop_bit 8 w), ucast (drop_bit 16 w), ucast (drop_bit 24 w)]"

text \<open>
  The parser walks a cursor \<^verbatim>\<open>cur\<close> towards \<^verbatim>\<open>end\<close>. The model keeps the bytes from
  \<^verbatim>\<open>cur\<close> to \<^verbatim>\<open>end\<close>: \<^verbatim>\<open>cur + n > end\<close> is \<open>n > length cur\<close>, advancing the cursor is
  \<open>drop\<close>, and \<^verbatim>\<open>data != end\<close> is \<open>cur \<noteq> []\<close>. A \<^verbatim>\<open>false\<close> return is \<open>None\<close>.
  \<^verbatim>\<open>
  static bool read_u32(const uint8_t *&cur, const uint8_t *end, uint32_t &out) {
      if (cur + 4 > end) { return false; }
      memcpy(&out, cur, 4);  cur += 4;  return true;
  }
  static bool read_str(const uint8_t *&cur, const uint8_t *end, size_t n, std::string &out) {
      if (cur + n > end) { return false; }
      out.assign(cur, cur + n);  cur += n;  return true;
  }
  \<close>
\<close>

definition read_u32 :: "bytes \<Rightarrow> (32 word \<times> bytes) option" where
  "read_u32 cur = (if 4 > length cur then None else Some (u32_of_bytes (take 4 cur), drop 4 cur))"

definition read_str :: "bytes \<Rightarrow> nat \<Rightarrow> (bytes \<times> bytes) option" where
  "read_str cur n = (if n > length cur then None else Some (take n cur, drop n cur))"

text \<open>
  \<^verbatim>\<open>
  static int32_t parse_req(const uint8_t *data, size_t size, std::vector<std::string> &out) {
      const uint8_t *end = data + size;
      uint32_t nstr = 0;
      if (!read_u32(data, end, nstr)) { return -1; }
      if (nstr > k_max_args) { return -1; }
      while (out.size() < nstr) {
          uint32_t len = 0;
          if (!read_u32(data, end, len)) { return -1; }
          out.push_back(std::string());
          if (!read_str(data, end, len, out.back())) { return -1; }
      }
      if (data != end) { return -1; }
      return 0;
  }
  \<close>
  The same text stands in CustomHashtable/main.cpp, with \<^verbatim>\<open>k_max_args = 200 * 1000\<close>, and in
  the basic key-value store (src/unnamed/part_000), with \<^verbatim>\<open>k_max_args = 16\<close>; the limit is
  the first argument of the model. The return value \<open>-1\<close> is \<open>None\<close>, and \<open>0\<close> is \<open>Some\<close>
  of the vector \<^verbatim>\<open>out\<close> as the call leaves it.
\<close>

function parse_req_loop :: "nat \<Rightarrow> bytes \<Rightarrow> bytes list \<Rightarrow> (bytes list \<times> bytes) option" where
  "parse_req_loop nstr cur out =
     (if length out < nstr then
        (case read_u32 cur of
           None \<Rightarrow> None
         | Some (len, cur1) \<Rightarrow>
             (case read_str cur1 (unat len) of
                None \<Rightarrow> None
              | Some (s, cur2) \<Rightarrow> parse_req_loop nstr cur2 (out @ [s])))
      else Some (out, cur))"
  by pat_completeness auto
termination
  by (relation "measure (\<lambda>(nstr, cur, out). nstr - length out)") auto

declare parse_req_loop.simps [simp del]

definition parse_req_lim :: "nat \<Rightarrow> bytes \<Rightarrow> bytes list \<Rightarrow> bytes list option" where
  "parse_req_lim kmax data out =
     (case read_u32 data of
        None \<Rightarrow> None
      | Some (nstr, cur) \<Rightarrow>
          if unat nstr > kmax then None
          else (case parse_req_loop (unat nstr) cur out of
                  None \<Rightarrow> None
                | Some (out', cur') \<Rightarrow> if cur' \<noteq> [] then None else Some out'))"

definition k_max_args :: nat where
  "k_max_args = 200 * 1000"

definition parse_req :: "bytes \<Rightarrow> bytes list \<Rightarrow> bytes list option" where
  "parse_req = parse_req_lim k_max_args"

definition kv_k_max_args :: nat where
  "kv_k_max_args = 16"

definition kv_parse_req :: "bytes \<Rightarrow> bytes list \<Rightarrow> bytes list option" where
  "kv_parse_req = parse_req_lim kv_k_max_args"

text \<open>
  The payload layout of the protocol, written from its description
  (\<open>nstr:u32 | (slen:u32 | s_bytes[slen]) \<times> nstr\<close>); the test runner's
  \<^verbatim>\<open>encode_command\<close> of the basic store builds the same bytes.
\<close>

definition encode_str :: "bytes \<Rightarrow> bytes" where
  "encode_str s = bytes_of_u32 (of_nat (length s)) @ s"

definition encode_req :: "bytes list \<Rightarrow> bytes" where
  "encode_req cmd = bytes_of_u32 (of_nat (length cmd)) @ concat (map encode_str cmd)"

definition fits_u32 :: "bytes \<Rightarrow> bool" where
  "fits_u32 s = (length s < 2 ^ 32)"

section \<open>The basic key-value store (src/unnamed/part_000)\<close>

text \<open>
  A self-contained program: the request parser above with \<^verbatim>\<open>k_max_args = 16\<close>, a
  dispatcher over a global \<^verbatim>\<open>std::map<string, string> g_data\<close>, and a test runner. Its
  status codes are its own:
  \<^verbatim>\<open>
  const uint32_t RES_OK = 0;
  const uint32_t RES_NX = 1;
  const uint32_t RES_ERR = 2;
  \<close>
  as its README documents ("0 for OK, 1 for Not Found, 2 for Error"). Names of this
  program carry the prefix \<open>kv_\<close>.
\<close>

definition kv_RES_OK :: "32 word" where
  "kv_RES_OK = 0"

definition kv_RES_NX :: "32 word" where
  "kv_RES_NX = 1"

definition kv_RES_ERR :: "32 word" where
  "kv_RES_ERR = 2"

text \<open>
  \<^verbatim>\<open>struct Response { uint32_t status = 0; std::vector<uint8_t> data; };\<close>
  The struct is the same in both programs; \<open>Response0\<close> is a default-constructed one.
\<close>

record Response =
  status :: "32 word"
  data :: bytes

definition Response0 :: Response where
  "Response0 = \<lparr>status = 0, data = []\<rparr>"

text \<open>
  \<^verbatim>\<open>
  void do_request(vector<string> &cmd, Response &out) {
      if (cmd.size() == 2 && cmd[0] == "get") {
          auto it = g_data.find(cmd[1]);
          if (it == g_data.end()) { out.status = RES_NX; return; }
          const string &val = it->second;
          out.data.assign(val.begin(), val.end());
      } else if (cmd.size() == 3 && cmd[0] == "set") {
          g_data[cmd[1]] = cmd[2];
      } else if (cmd.size() == 2 && cmd[0] == "del") {
          g_data.erase(cmd[1]);
      } else {
          out.status = RES_ERR;
      }
  }
  \<close>
  The global map is a HOL map, passed in and returned; \<^verbatim>\<open>out\<close> is passed in and
  returned as the call leaves it.
\<close>

definition kv_do_request ::
  "bytes list \<Rightarrow> Response \<Rightarrow> (bytes \<rightharpoonup> bytes) \<Rightarrow> Response \<times> (bytes \<rightharpoonup> bytes)" where
  "kv_do_request cmd out g =
     (if length cmd = 2 \<and> cmd ! 0 = str ''get'' then
        (case g (cmd ! 1) of
           None \<Rightarrow> (out\<lparr>status := kv_RES_NX\<rparr>, g)
         | Some v \<Rightarrow> (out\<lparr>data := v\<rparr>, g))
      else if length cmd = 3 \<and> cmd ! 0 = str ''set'' then
        (out, g(cmd ! 1 \<mapsto> cmd ! 2))
      else if length cmd = 2 \<and> cmd ! 0 = str ''del'' then
        (out, g(cmd ! 1 := None))
      else
        (out\<lparr>status := kv_RES_ERR\<rparr>, g))"

text \<open>
  \<^verbatim>\<open>
  void make_response(const Response &resp, vector<uint8_t> &out) {
      uint32_t resp_len = 4 + (uint32_t)resp.data.size();
      buf_append(out, (const uint8_t *)&resp_len, 4);
      buf_append(out, (const uint8_t *)&resp.status, 4);
      buf_append(out, resp.data.data(), resp.data.size());
  }
  \<close>
  The same function stands in both programs. The cast to \<^verbatim>\<open>uint32_t\<close> truncates, as
  \<open>of_nat\<close> into \<open>32 word\<close> does, and the addition wraps.
\<close>

definition buf_append :: "bytes \<Rightarrow> bytes \<Rightarrow> bytes" where
  "buf_append buf bs = buf @ bs"

definition make_response :: "Response \<Rightarrow> bytes \<Rightarrow> bytes" where
  "make_response resp out =
     (let resp_len = 4 + (of_nat (length (data resp)) :: 32 word);
          out1 = buf_append out (bytes_of_u32 resp_len);
          out2 = buf_append out1 (bytes_of_u32 (status resp))
      in buf_append out2 (data resp))"

text \<open>
  \<^verbatim>\<open>
  struct Conn { vector<uint8_t> incoming; vector<uint8_t> outgoing; bool want_close = false; };

  bool try_one_request(Conn *conn) {
      if (conn->incoming.empty()) return false;
      vector<string> cmd;
      if (parse_req(conn->incoming.data(), conn->incoming.size(), cmd) < 0) {
          conn->want_close = true;
          return false;
      }
      Response resp;
      do_request(cmd, resp);
      make_response(resp, conn->outgoing);
      return true;
  }
  \<close>
\<close>

record kv_Conn =
  kv_incoming :: bytes
  kv_outgoing :: bytes
  kv_want_close :: bool

definition kv_try_one_request ::
  "kv_Conn \<Rightarrow> (bytes \<rightharpoonup> bytes) \<Rightarrow> bool \<times> kv_Conn \<times> (bytes \<rightharpoonup> bytes)" where
  "kv_try_one_request conn g =
     (if kv_incoming conn = [] then (False, conn, g)
      else (case kv_parse_req (kv_incoming conn) [] of
              None \<Rightarrow> (False, conn\<lparr>kv_want_close := True\<rparr>, g)
            | Some cmd \<Rightarrow>
                (let (resp, g') = kv_do_request cmd Response0 g
                 in (True, conn\<lparr>kv_outgoing := make_response resp (kv_outgoing conn)\<rparr>, g'))))"

text \<open>
  Sequences of \<open>set\<close>/\<open>get\<close>/\<open>del\<close> commands, as argument vectors, and the dispatcher run
  over a sequence from a given store. Each request gets a fresh \<^verbatim>\<open>Response\<close>, as in
  \<^verbatim>\<open>try_one_request\<close>.
\<close>

datatype kv_cmd = Set bytes bytes | Get bytes | Del bytes

fun argv :: "kv_cmd \<Rightarrow> bytes list" where
  "argv (Set k v) = [str ''set'', k, v]"
| "argv (Get k) = [str ''get'', k]"
| "argv (Del k) = [str ''del'', k]"

fun kv_run :: "kv_cmd list \<Rightarrow> (bytes \<rightharpoonup> bytes) \<Rightarrow> (bytes \<rightharpoonup> bytes)" where
  "kv_run [] g = g"
| "kv_run (c # cs) g = kv_run cs (snd (kv_do_request (argv c) Response0 g))"

text \<open>
  What a \<open>get k\<close> is to return after a history of commands, in the claim's words: the value
  of the most recent \<open>set k v\<close> not followed by a \<open>del k\<close>. \<open>latest\<close> reads the history
  backwards, most recent command first.
\<close>

fun latest :: "bytes \<Rightarrow> kv_cmd list \<Rightarrow> bytes option" where
  "latest k [] = None"
| "latest k (Set k' v # earlier) = (if k' = k then Some v else latest k earlier)"
| "latest k (Del k' # earlier) = (if k' = k then None else latest k earlier)"
| "latest k (Get k' # earlier) = latest k earlier"

definition last_set :: "bytes \<Rightarrow> kv_cmd list \<Rightarrow> bytes option" where
  "last_set k history = latest k (rev history)"

section \<open>Pointers and intrusive nodes\<close>

text \<open>
  A pointer is a 64-bit address and \<^verbatim>\<open>nullptr\<close> is address 0. The macro
  \<^verbatim>\<open>
  #define container_of(ptr, T, member) ((T *)( (char *)ptr - offsetof(T, member) ))
  \<close>
  of CustomHashtable/main.cpp, and \<^verbatim>\<open>CONTAINER_OF\<close> of common.h, which computes the same
  \<^verbatim>\<open>reinterpret_cast<T*>(reinterpret_cast<char*>(ptr) - offset)\<close>, subtract the member's
  offset from the member's address.
\<close>

type_synonym ptr = "64 word"

definition nullptr :: ptr where
  "nullptr = 0"

definition container_of :: "ptr \<Rightarrow> 64 word \<Rightarrow> ptr" where
  "container_of p off = p - off"

text \<open>
  \<^verbatim>\<open>struct HNode { HNode *next = nullptr; uint64_t hcode = 0; };\<close> (hashtable.h).
  The \<^verbatim>\<open>next\<close> links are not a field of the model: a chain is kept as the list of
  its nodes' addresses, in chain order.
\<close>

record HNode =
  hcode :: "64 word"

section \<open>The hash map (hashtable.h; hashtable.cpp is not among the sources)\<close>

text \<open>
  Modelled from the spec: \<^verbatim>\<open>hm_lookup\<close>, \<^verbatim>\<open>hm_insert\<close>, \<^verbatim>\<open>hm_delete\<close>, \<^verbatim>\<open>hm_clear\<close> and
  \<^verbatim>\<open>hm_size\<close>, declared in hashtable.h and implemented in hashtable.cpp, which is missing.
  The structs are those of hashtable.h:
  \<^verbatim>\<open>
  struct HTab { HNode **tab = nullptr; size_t mask = 0; size_t size = 0; };
  struct HMap { HTab newer; HTab older; size_t migrate_pos = 0; };
  \<close>
  A table is the array of its chains; \<^verbatim>\<open>tab == nullptr\<close> is the empty array. The
  functions follow section 4.1 of the specification: two tables, a bucket chosen by
  \<open>hcode AND mask\<close>, a match when both the hash code and the caller's equality agree,
  an initial capacity of 4, a rehash when the load factor exceeds 8 (started only when no
  migration is under way, as the invariant that every node is in exactly one of the two
  tables requires), and a help step of at most 128 non-empty buckets run by every lookup,
  insert and delete. They take the
  way to read a node's \<^verbatim>\<open>hcode\<close> from memory as their first argument, the key's node
  by value, and the equality callback already applied to the key.
\<close>

record HTab =
  tab :: "ptr list list"
  mask :: "64 word"
  size_h :: nat

record HMap =
  newer :: HTab
  older :: HTab
  migrate_pos :: nat

definition HTab0 :: HTab where
  "HTab0 = \<lparr>tab = [], mask = 0, size_h = 0\<rparr>"

definition HMap0 :: HMap where
  "HMap0 = \<lparr>newer = HTab0, older = HTab0, migrate_pos = 0\<rparr>"

definition k_max_load_factor :: nat where
  "k_max_load_factor = 8"

definition k_rehashing_work :: nat where
  "k_rehashing_work = 128"

definition h_init :: "nat \<Rightarrow> HTab" where
  "h_init n = \<lparr>tab = replicate n [], mask = of_nat n - 1, size_h = 0\<rparr>"

definition h_insert :: "(ptr \<Rightarrow> 64 word) \<Rightarrow> HTab \<Rightarrow> ptr \<Rightarrow> HTab" where
  "h_insert hc t n =
     (let pos = unat (hc n AND mask t)
      in t\<lparr>tab := (tab t)[pos := n # (tab t ! pos)], size_h := size_h t + 1\<rparr>)"

definition h_lookup :: "(ptr \<Rightarrow> 64 word) \<Rightarrow> HTab \<Rightarrow> HNode \<Rightarrow> (ptr \<Rightarrow> bool) \<Rightarrow> ptr" where
  "h_lookup hc t k eq =
     (if tab t = [] then nullptr
      else (case find (\<lambda>n. hc n = hcode k \<and> eq n) (tab t ! unat (hcode k AND mask t)) of
              None \<Rightarrow> nullptr
            | Some n \<Rightarrow> n))"

fun splice_out :: "ptr \<Rightarrow> ptr list \<Rightarrow> ptr list" where
  "splice_out n [] = []"
| "splice_out n (x # chain) = (if x = n then chain else x # splice_out n chain)"

definition h_detach :: "(ptr \<Rightarrow> 64 word) \<Rightarrow> HTab \<Rightarrow> ptr \<Rightarrow> HTab" where
  "h_detach hc t n =
     (let pos = unat (hc n AND mask t)
      in t\<lparr>tab := (tab t)[pos := splice_out n (tab t ! pos)], size_h := size_h t - 1\<rparr>)"

function hm_help_loop :: "(ptr \<Rightarrow> 64 word) \<Rightarrow> nat \<Rightarrow> HMap \<Rightarrow> HMap" where
  "hm_help_loop hc nwork m =
     (if nwork < k_rehashing_work \<and> size_h (older m) > 0
         \<and> migrate_pos m < length (tab (older m)) then
        (case tab (older m) ! migrate_pos m of
           [] \<Rightarrow> hm_help_loop hc nwork (m\<lparr>migrate_pos := migrate_pos m + 1\<rparr>)
         | n # chain \<Rightarrow>
             hm_help_loop hc (nwork + 1)
               (m\<lparr>newer := fold (\<lambda>x t. h_insert hc t x) (n # chain) (newer m),
                   older := (older m)\<lparr>tab := (tab (older m))[migrate_pos m := []],
                                       size_h := size_h (older m) - length (n # chain)\<rparr>,
                   migrate_pos := migrate_pos m + 1\<rparr>))
      else m)"
  by pat_completeness auto
termination
  by (relation "measure (\<lambda>(hc, nwork, m). length (tab (older m)) - migrate_pos m)") auto

declare hm_help_loop.simps [simp del]

definition hm_help_rehashing :: "(ptr \<Rightarrow> 64 word) \<Rightarrow> HMap \<Rightarrow> HMap" where
  "hm_help_rehashing hc m =
     (let m1 = hm_help_loop hc 0 m
      in if size_h (older m1) = 0 \<and> tab (older m1) \<noteq> [] then m1\<lparr>older := HTab0\<rparr> else m1)"

definition hm_trigger_rehashing :: "HMap \<Rightarrow> HMap" where
  "hm_trigger_rehashing m =
     m\<lparr>older := newer m, newer := h_init ((unat (mask (newer m)) + 1) * 2), migrate_pos := 0\<rparr>"

definition hm_lookup ::
  "(ptr \<Rightarrow> 64 word) \<Rightarrow> HMap \<Rightarrow> HNode \<Rightarrow> (ptr \<Rightarrow> bool) \<Rightarrow> HMap \<times> ptr" where
  "hm_lookup hc m k eq =
     (let m1 = hm_help_rehashing hc m;
          n = h_lookup hc (newer m1) k eq
      in (m1, if n \<noteq> nullptr then n else h_lookup hc (older m1) k eq))"

definition hm_insert :: "(ptr \<Rightarrow> 64 word) \<Rightarrow> HMap \<Rightarrow> ptr \<Rightarrow> HMap" where
  "hm_insert hc m n =
     (let m1 = (if tab (newer m) = [] then m\<lparr>newer := h_init 4\<rparr> else m);
          m2 = m1\<lparr>newer := h_insert hc (newer m1) n\<rparr>;
          m3 = (if tab (older m2) = []
                    \<and> size_h (newer m2) > k_max_load_factor * (unat (mask (newer m2)) + 1)
                then hm_trigger_rehashing m2 else m2)
      in hm_help_rehashing hc m3)"

definition hm_delete ::
  "(ptr \<Rightarrow> 64 word) \<Rightarrow> HMap \<Rightarrow> HNode \<Rightarrow> (ptr \<Rightarrow> bool) \<Rightarrow> HMap \<times> ptr" where
  "hm_delete hc m k eq =
     (let m1 = hm_help_rehashing hc m;
          n = h_lookup hc (newer m1) k eq
      in if n \<noteq> nullptr then (m1\<lparr>newer := h_detach hc (newer m1) n\<rparr>, n)
         else (let n' = h_lookup hc (older m1) k eq
               in if n' \<noteq> nullptr then (m1\<lparr>older := h_detach hc (older m1) n'\<rparr>, n')
                  else (m1, nullptr)))"

definition hm_clear :: "HMap \<Rightarrow> HMap" where
  "hm_clear m = HMap0"

definition hm_size :: "HMap \<Rightarrow> nat" where
  "hm_size m = size_h (newer m) + size_h (older m)"

section \<open>The event-loop server (CustomHashtable/main.cpp)\<close>

subsection \<open>Connection buffers\<close>

text \<open>
  \<^verbatim>\<open>
  const size_t k_max_msg = 32 << 20;
  struct Conn {
      int fd = -1;
      bool want_read = false;  bool want_write = false;  bool want_close = false;
      std::vector<uint8_t> incoming;
      std::vector<uint8_t> outgoing;
  };
  static void buf_consume(std::vector<uint8_t> &buf, size_t n) {
      buf.erase(buf.begin(), buf.begin() + n);
  }
  \<close>
  \<^verbatim>\<open>buf_consume\<close> is called with \<open>n\<close> at most the buffer's size.
\<close>

definition k_max_msg :: nat where
  "k_max_msg = 32 * 2 ^ 20"

record Conn =
  fd :: int
  want_read :: bool
  want_write :: bool
  want_close :: bool
  incoming :: bytes
  outgoing :: bytes

definition buf_consume :: "bytes \<Rightarrow> nat \<Rightarrow> bytes" where
  "buf_consume buf n = drop n buf"

subsection \<open>The keyspace\<close>

text \<open>
  \<^verbatim>\<open>
  enum { RES_OK = 0, RES_ERR = 1, RES_NX = 2 };
  static struct { HMap db; } g_data;
  struct Entry { struct HNode node; std::string key; std::string val; };
  static bool entry_eq(HNode *lhs, HNode *rhs) {
      struct Entry *le = container_of(lhs, struct Entry, node);
      struct Entry *re = container_of(rhs, struct Entry, node);
      return le->key == re->key;
  }
  \<close>
  The entries live in the free store: \<open>heap\<close> gives the \<^verbatim>\<open>Entry\<close> at an address, and
  \<^verbatim>\<open>new Entry()\<close> returns the address \<open>brk\<close>, which then moves past the object, so that
  every allocation gets an address of its own; \<^verbatim>\<open>delete\<close> leaves the store as it is.
  The model's \<open>g_data\<close> holds the table \<^verbatim>\<open>g_data.db\<close> and this free store. \<^verbatim>\<open>node\<close> is
  the first member of \<^verbatim>\<open>Entry\<close>, at offset 0. \<open>entry_eq\<close> is given the two entries that
  the C function reaches through \<^verbatim>\<open>container_of\<close>.
\<close>

definition RES_OK :: "32 word" where
  "RES_OK = 0"

definition RES_ERR :: "32 word" where
  "RES_ERR = 1"

definition RES_NX :: "32 word" where
  "RES_NX = 2"

record Entry =
  node :: HNode
  key :: bytes
  val :: bytes

record g_data =
  db :: HMap
  heap :: "ptr \<Rightarrow> Entry"
  brk :: ptr

definition Entry0 :: Entry where
  "Entry0 = \<lparr>node = \<lparr>hcode = 0\<rparr>, key = [], val = []\<rparr>"

definition sizeof_Entry :: "64 word" where
  "sizeof_Entry = 80"

definition g_data0 :: g_data where
  "g_data0 = \<lparr>db = HMap0, heap = (\<lambda>p. Entry0), brk = 4096\<rparr>"

definition offsetof_Entry_node :: "64 word" where
  "offsetof_Entry_node = 0"

definition entry_at :: "g_data \<Rightarrow> ptr \<Rightarrow> Entry" where
  "entry_at g n = heap g (container_of n offsetof_Entry_node)"

definition entry_hcode :: "g_data \<Rightarrow> ptr \<Rightarrow> 64 word" where
  "entry_hcode g n = hcode (node (entry_at g n))"

definition entry_eq :: "Entry \<Rightarrow> Entry \<Rightarrow> bool" where
  "entry_eq le re = (key le = key re)"

text \<open>
  \<^verbatim>\<open>
  static void do_get(std::vector<std::string> &cmd, Response &out) {
      Entry key;
      key.key.swap(cmd[1]);
      key.node.hcode = str_hash((uint8_t *)key.key.data(), key.key.size());
      HNode *node = hm_lookup(&g_data.db, &key.node, &entry_eq);
      if (!node) { out.status = RES_NX; return; }
      const std::string &val = container_of(node, Entry, node)->val;
      assert(val.size() <= k_max_msg);
      out.data.assign(val.begin(), val.end());
  }
  static void do_set(std::vector<std::string> &cmd, Response &) {
      Entry key;
      key.key.swap(cmd[1]);
      key.node.hcode = str_hash((uint8_t *)key.key.data(), key.key.size());
      HNode *node = hm_lookup(&g_data.db, &key.node, &entry_eq);
      if (node) {
          container_of(node, Entry, node)->val.swap(cmd[2]);
      } else {
          Entry *ent = new Entry();
          ent->key.swap(key.key);
          ent->node.hcode = key.node.hcode;
          ent->val.swap(cmd[2]);
          hm_insert(&g_data.db, &ent->node);
      }
  }
  static void do_del(std::vector<std::string> &cmd, Response &) {
      Entry key;
      key.key.swap(cmd[1]);
      key.node.hcode = str_hash((uint8_t *)key.key.data(), key.key.size());
      HNode *node = hm_delete(&g_data.db, &key.node, &entry_eq);
      if (node) { delete container_of(node, Entry, node); }
  }
  static void do_request(std::vector<std::string> &cmd, Response &out) {
      if (cmd.size() == 2 && cmd[0] == "get") { return do_get(cmd, out); }
      else if (cmd.size() == 3 && cmd[0] == "set") { return do_set(cmd, out); }
      else if (cmd.size() == 2 && cmd[0] == "del") { return do_del(cmd, out); }
      else { out.status = RES_ERR; }
  }
  \<close>
  A failed \<^verbatim>\<open>assert\<close> aborts the process: the functions return \<open>None\<close> there, and
  \<open>Some\<close> of the response and the new global state otherwise. \<open>probe\<close> is the local
  \<^verbatim>\<open>Entry key\<close>.
\<close>

definition probe :: "bytes \<Rightarrow> Entry" where
  "probe k = \<lparr>node = \<lparr>hcode = str_hash k\<rparr>, key = k, val = []\<rparr>"

definition do_get :: "bytes list \<Rightarrow> Response \<Rightarrow> g_data \<Rightarrow> (Response \<times> g_data) option" where
  "do_get cmd out g =
     (let k = probe (cmd ! 1);
          (db', n) = hm_lookup (entry_hcode g) (db g) (node k) (\<lambda>x. entry_eq (entry_at g x) k);
          g' = g\<lparr>db := db'\<rparr>
      in if n = nullptr then Some (out\<lparr>status := RES_NX\<rparr>, g')
         else (let v = val (entry_at g' n)
               in if \<not> length v \<le> k_max_msg then None
                  else Some (out\<lparr>data := v\<rparr>, g')))"

definition do_set :: "bytes list \<Rightarrow> Response \<Rightarrow> g_data \<Rightarrow> (Response \<times> g_data) option" where
  "do_set cmd out g =
     (let k = probe (cmd ! 1);
          (db', n) = hm_lookup (entry_hcode g) (db g) (node k) (\<lambda>x. entry_eq (entry_at g x) k);
          g' = g\<lparr>db := db'\<rparr>
      in if n \<noteq> nullptr then
           (let p = container_of n offsetof_Entry_node
            in Some (out, g'\<lparr>heap := (heap g')(p := (heap g' p)\<lparr>val := cmd ! 2\<rparr>)\<rparr>))
         else
           (let ent = brk g';
                g1 = g'\<lparr>brk := brk g' + sizeof_Entry,
                        heap := (heap g')(ent := \<lparr>node = \<lparr>hcode = hcode (node k)\<rparr>,
                                                  key = key k, val = cmd ! 2\<rparr>)\<rparr>
            in Some (out, g1\<lparr>db := hm_insert (entry_hcode g1) (db g1) (ent + offsetof_Entry_node)\<rparr>)))"

definition do_del :: "bytes list \<Rightarrow> Response \<Rightarrow> g_data \<Rightarrow> (Response \<times> g_data) option" where
  "do_del cmd out g =
     (let k = probe (cmd ! 1);
          (db', n) = hm_delete (entry_hcode g) (db g) (node k) (\<lambda>x. entry_eq (entry_at g x) k)
      in Some (out, g\<lparr>db := db'\<rparr>))"

definition do_request :: "bytes list \<Rightarrow> Response \<Rightarrow> g_data \<Rightarrow> (Response \<times> g_data) option" where
  "do_request cmd out g =
     (if length cmd = 2 \<and> cmd ! 0 = str ''get'' then do_get cmd out g
      else if length cmd = 3 \<and> cmd ! 0 = str ''set'' then do_set cmd out g
      else if length cmd = 2 \<and> cmd ! 0 = str ''del'' then do_del cmd out g
      else Some (out\<lparr>status := RES_ERR\<rparr>, g))"

subsection \<open>The framer\<close>

text \<open>
  \<^verbatim>\<open>
  static bool try_one_request(Conn *conn) {
      if (conn->incoming.size() < 4) { return false; }
      uint32_t len = 0;
      memcpy(&len, conn->incoming.data(), 4);
      if (len > k_max_msg) { msg("too long"); conn->want_close = true; return false; }
      if (4 + len > conn->incoming.size()) { return false; }
      const uint8_t *request = &conn->incoming[4];
      std::vector<std::string> cmd;
      if (parse_req(request, len, cmd) < 0) {
          msg("bad request"); conn->want_close = true; return false;
      }
      Response resp;
      do_request(cmd, resp);
      make_response(resp, conn->outgoing);
      buf_consume(conn->incoming, 4 + len);
      return true;
  }
  \<close>
  \<^verbatim>\<open>4 + len\<close> is an addition of \<^verbatim>\<open>uint32_t\<close>, as in the model.
\<close>

definition try_one_request :: "Conn \<Rightarrow> g_data \<Rightarrow> (bool \<times> Conn \<times> g_data) option" where
  "try_one_request conn g =
     (if length (incoming conn) < 4 then Some (False, conn, g)
      else (let len = u32_of_bytes (take 4 (incoming conn))
            in if unat len > k_max_msg then Some (False, conn\<lparr>want_close := True\<rparr>, g)
               else if unat (4 + len) > length (incoming conn) then Some (False, conn, g)
               else (let request = drop 4 (incoming conn)
                     in case parse_req (take (unat len) request) [] of
                          None \<Rightarrow> Some (False, conn\<lparr>want_close := True\<rparr>, g)
                        | Some cmd \<Rightarrow>
                            (case do_request cmd Response0 g of
                               None \<Rightarrow> None
                             | Some (resp, g') \<Rightarrow>
                                 Some (True,
                                   conn\<lparr>outgoing := make_response resp (outgoing conn),
                                        incoming := buf_consume (incoming conn) (unat (4 + len))\<rparr>,
                                   g')))))"

text \<open>
  \<^verbatim>\<open>while (try_one_request(conn)) {}\<close> of \<^verbatim>\<open>handle_read\<close>. Every successful round
  removes a frame of at least four bytes from \<^verbatim>\<open>incoming\<close>, so the loop ends.
\<close>

function framer_loop :: "Conn \<times> g_data \<Rightarrow> (Conn \<times> g_data) option" where
  "framer_loop (conn, g) =
     (case try_one_request conn g of
        None \<Rightarrow> None
      | Some (again, conn', g') \<Rightarrow> if again then framer_loop (conn', g') else Some (conn', g'))"
  by pat_completeness auto
termination
proof (relation "measure (\<lambda>(conn, g). length (incoming conn))")
  show "wf (measure (\<lambda>(conn, g). length (incoming conn)))"
    by simp
next
  fix conn :: Conn and g :: g_data and r again rest conn' g'
  assume step: "try_one_request conn g = Some r" "(again, rest) = r" "(conn', g') = rest" again
  define len where "len = u32_of_bytes (take 4 (incoming conn))"
  from step have a: "4 \<le> length (incoming conn)" and b: "unat len \<le> k_max_msg"
    and c: "incoming conn' = buf_consume (incoming conn) (unat (4 + len))"
    by (auto simp: try_one_request_def Let_def len_def split: if_splits option.splits)
  from b have "unat (4 :: 32 word) + unat len < 2 ^ LENGTH(32)"
    by (simp add: k_max_msg_def)
  then have "unat (4 + len) = unat (4 :: 32 word) + unat len"
    by (simp only: unat_add_lem)
  then have "length (incoming conn') < length (incoming conn)"
    using a by (simp add: c buf_consume_def)
  then show "((conn', g'), (conn, g)) \<in> measure (\<lambda>(conn, g). length (incoming conn))"
    by simp
qed

declare framer_loop.simps [simp del]

subsection \<open>Socket callbacks\<close>

text \<open>
  \<^verbatim>\<open>read\<close> and \<^verbatim>\<open>write\<close> are the environment: what a call returned is an argument of
  the model. \<open>Read_Bytes buf\<close> is a return value \<open>rv = length buf \<ge> 0\<close> with the bytes
  read (\<open>rv = 0\<close> is the end of the stream); \<open>Wrote rv\<close> is a return value \<open>rv \<ge> 0\<close>;
  the \<open>EAGAIN\<close> results are \<open>rv < 0\<close> with \<^verbatim>\<open>errno == EAGAIN\<close>, the \<open>Error\<close> results any other
  \<open>rv < 0\<close>. \<^verbatim>\<open>handle_write\<close> also returns the bytes that went to the socket.
  \<^verbatim>\<open>
  static void handle_write(Conn *conn) {
      assert(conn->outgoing.size() > 0);
      ssize_t rv = write(conn->fd, &conn->outgoing[0], conn->outgoing.size());
      if (rv < 0 && errno == EAGAIN) { return; }
      if (rv < 0) { msg_errno("write() error"); conn->want_close = true; return; }
      buf_consume(conn->outgoing, (size_t)rv);
      if (conn->outgoing.size() == 0) { conn->want_read = true; conn->want_write = false; }
  }
  static void handle_read(Conn *conn) {
      uint8_t buf[64 * 1024];
      ssize_t rv = read(conn->fd, buf, sizeof(buf));
      if (rv < 0 && errno == EAGAIN) { return; }
      if (rv < 0) { msg_errno("read() error"); conn->want_close = true; return; }
      if (rv == 0) { ...; conn->want_close = true; return; }
      buf_append(conn->incoming, buf, (size_t)rv);
      while (try_one_request(conn)) {}
      if (conn->outgoing.size() > 0) {
          conn->want_read = false;
          conn->want_write = true;
          return handle_write(conn);
      }
  }
  \<close>
\<close>

datatype read_result = Read_EAGAIN | Read_Error | Read_Bytes bytes

datatype write_result = Write_EAGAIN | Write_Error | Wrote nat

definition handle_write :: "Conn \<Rightarrow> write_result \<Rightarrow> (Conn \<times> bytes) option" where
  "handle_write conn wr =
     (if \<not> length (outgoing conn) > 0 then None
      else (case wr of
              Write_EAGAIN \<Rightarrow> Some (conn, [])
            | Write_Error \<Rightarrow> Some (conn\<lparr>want_close := True\<rparr>, [])
            | Wrote rv \<Rightarrow>
                (let conn1 = conn\<lparr>outgoing := buf_consume (outgoing conn) rv\<rparr>
                 in Some (if length (outgoing conn1) = 0
                          then conn1\<lparr>want_read := True, want_write := False\<rparr>
                          else conn1,
                          take rv (outgoing conn)))))"

definition handle_read ::
  "Conn \<Rightarrow> g_data \<Rightarrow> read_result \<Rightarrow> write_result \<Rightarrow> (Conn \<times> g_data \<times> bytes) option" where
  "handle_read conn g rd wr =
     (case rd of
        Read_EAGAIN \<Rightarrow> Some (conn, g, [])
      | Read_Error \<Rightarrow> Some (conn\<lparr>want_close := True\<rparr>, g, [])
      | Read_Bytes buf \<Rightarrow>
          if length buf = 0 then Some (conn\<lparr>want_close := True\<rparr>, g, [])
          else (case framer_loop (conn\<lparr>incoming := buf_append (incoming conn) buf\<rparr>, g) of
                  None \<Rightarrow> None
                | Some (conn1, g1) \<Rightarrow>
                    if length (outgoing conn1) > 0 then
                      (case handle_write (conn1\<lparr>want_read := False, want_write := True\<rparr>) wr of
                         None \<Rightarrow> None
                       | Some (conn2, wire) \<Rightarrow> Some (conn2, g1, wire))
                    else Some (conn1, g1, [])))"

text \<open>
  The part of the event loop of \<^verbatim>\<open>main\<close> that serves one connection:
  \<^verbatim>\<open>
  if (ready & POLLIN)  { assert(conn->want_read);  handle_read(conn); }
  if (ready & POLLOUT) { assert(conn->want_write); handle_write(conn); }
  \<close>
  An event is one readiness report with the results of the system calls made while
  serving it. \<open>link\<close> is a connection together with the global state and the bytes the
  socket has taken so far.
\<close>

datatype event = Readable read_result write_result | Writable write_result

record link =
  conn_of :: Conn
  glob :: g_data
  wire_out :: bytes

fun serve_event :: "event \<Rightarrow> link \<Rightarrow> link option" where
  "serve_event (Readable rd wr) w =
     (if \<not> want_read (conn_of w) then None
      else (case handle_read (conn_of w) (glob w) rd wr of
              None \<Rightarrow> None
            | Some (conn', g', wire) \<Rightarrow>
                Some (w\<lparr>conn_of := conn', glob := g', wire_out := wire_out w @ wire\<rparr>)))"
| "serve_event (Writable wr) w =
     (if \<not> want_write (conn_of w) then None
      else (case handle_write (conn_of w) wr of
              None \<Rightarrow> None
            | Some (conn', wire) \<Rightarrow> Some (w\<lparr>conn_of := conn', wire_out := wire_out w @ wire\<rparr>)))"

fun serve_events :: "event list \<Rightarrow> link \<Rightarrow> link option" where
  "serve_events [] w = Some w"
| "serve_events (e # es) w =
     (case serve_event e w of None \<Rightarrow> None | Some w' \<Rightarrow> serve_events es w')"

text \<open>
  A connection as \<^verbatim>\<open>handle_accept\<close> creates it (\<^verbatim>\<open>conn->fd = connfd;
  conn->want_read = true;\<close>), and the terms in which the pipelining claim is stated: a
  well-formed request frame, the chunks a schedule of events delivers, the events during
  which no system call fails and no read reports the end of the stream, and the response
  frames that serving a list of request frames one after the other produces.
\<close>

definition new_conn :: "int \<Rightarrow> Conn" where
  "new_conn connfd = \<lparr>fd = connfd, want_read = True, want_write = False, want_close = False,
                       incoming = [], outgoing = []\<rparr>"

definition frame :: "bytes \<Rightarrow> bytes" where
  "frame payload = bytes_of_u32 (of_nat (length payload)) @ payload"

definition well_formed_frame :: "bytes \<Rightarrow> bool" where
  "well_formed_frame f =
     (4 \<le> length f \<and> unat (u32_of_bytes (take 4 f)) \<le> k_max_msg
      \<and> length f = 4 + unat (u32_of_bytes (take 4 f))
      \<and> parse_req (drop 4 f) [] \<noteq> None)"

fun chunk_of :: "event \<Rightarrow> bytes" where
  "chunk_of (Readable (Read_Bytes buf) wr) = buf"
| "chunk_of e = []"

fun benign :: "event \<Rightarrow> bool" where
  "benign (Readable (Read_Bytes buf) wr) = (buf \<noteq> [] \<and> wr \<noteq> Write_Error)"
| "benign (Readable Read_EAGAIN wr) = True"
| "benign (Readable Read_Error wr) = False"
| "benign (Writable wr) = (wr \<noteq> Write_Error)"

fun respond_all :: "bytes list \<Rightarrow> g_data \<Rightarrow> (bytes list \<times> g_data) option" where
  "respond_all [] g = Some ([], g)"
| "respond_all (f # fs) g =
     (case parse_req (drop 4 f) [] of
        None \<Rightarrow> None
      | Some cmd \<Rightarrow>
          (case do_request cmd Response0 g of
             None \<Rightarrow> None
           | Some (resp, g') \<Rightarrow>
               (case respond_all fs g' of
                  None \<Rightarrow> None
                | Some (rs, g'') \<Rightarrow> Some (make_response resp [] # rs, g''))))"

section \<open>Vocabulary of the claims about the wire protocol\<close>

text \<open>
  \<open>is_cmd\<close> is the test \<^verbatim>\<open>cmd.size() == n && cmd[0] == "name"\<close> of both dispatchers, and a
  command is recognised when one of their three tests holds. \<open>status_field\<close> reads the
  status out of a response frame \<open>len:u32 | status:u32 | data\<close>. \<open>db_find\<close> is the lookup
  \<^verbatim>\<open>do_get\<close> makes for a key. \<open>encodes kmax buf cmd\<close> says that \<open>buf\<close> is the payload
  \<open>nstr | (len | bytes) \<times> nstr\<close> of the argument vector \<open>cmd\<close>, with at most \<open>kmax\<close> strings.
\<close>

definition is_cmd :: "string \<Rightarrow> nat \<Rightarrow> bytes list \<Rightarrow> bool" where
  "is_cmd nm n cmd = (length cmd = n \<and> cmd ! 0 = str nm)"

definition recognised :: "bytes list \<Rightarrow> bool" where
  "recognised cmd = (is_cmd ''get'' 2 cmd \<or> is_cmd ''set'' 3 cmd \<or> is_cmd ''del'' 2 cmd)"

definition status_field :: "bytes \<Rightarrow> 32 word" where
  "status_field f = u32_of_bytes (take 4 (drop 4 f))"

definition db_find :: "g_data \<Rightarrow> bytes \<Rightarrow> ptr" where
  "db_find g k =
     snd (hm_lookup (entry_hcode g) (db g) (node (probe k)) (\<lambda>x. entry_eq (entry_at g x) (probe k)))"

definition encodes :: "nat \<Rightarrow> bytes \<Rightarrow> bytes list \<Rightarrow> bool" where
  "encodes kmax buf cmd = (length cmd \<le> kmax \<and> list_all fits_u32 cmd \<and> buf = encode_req cmd)"

text \<open>
  \<open>nfit fs n\<close> is the number of leading frames of \<open>fs\<close> that lie entirely within the
  first \<open>n\<close> bytes of their concatenation: the complete frames of a buffer of \<open>n\<close> bytes.
  \<open>vals_bounded\<close> is what the assertion of \<^verbatim>\<open>do_get\<close> relies on: no stored value is longer
  than \<^verbatim>\<open>k_max_msg\<close>.
\<close>

fun nfit :: "bytes list \<Rightarrow> nat \<Rightarrow> nat" where
  "nfit [] n = 0"
| "nfit (f # fs) n = (if length f \<le> n then Suc (nfit fs (n - length f)) else 0)"

definition vals_bounded :: "g_data \<Rightarrow> bool" where
  "vals_bounded g = (\<forall>p. length (val (heap g p)) \<le> k_max_msg)"

text \<open>
  A run used to exercise the pipelining theorem: the requests \<open>set a 1\<close> and \<open>get a\<close>,
  delivered in three reads that cut both frames, with a partial write after the second read
  and the rest of that response written on a later writable event.
\<close>

definition demo_frames :: "bytes list" where
  "demo_frames = [frame (encode_req [str ''set'', str ''a'', str ''1'']),
                  frame (encode_req [str ''get'', str ''a''])]"

definition demo_events :: "event list" where
  "demo_events =
     [Readable (Read_Bytes (take 5 (concat demo_frames))) Write_EAGAIN,
      Readable (Read_Bytes (take 23 (drop 5 (concat demo_frames)))) (Wrote 3),
      Writable (Wrote 5),
      Readable (Read_Bytes (drop 28 (concat demo_frames))) (Wrote 100)]"

section \<open>Invariants of the hash map and of the keyspace\<close>

text \<open>
  The nodes of a table are those of its chains, bucket by bucket; the nodes of the map are
  those of its two tables. A table is well formed under \<open>tab_ok\<close> when its array has
  \<open>mask + 1\<close> slots, every node sits in the bucket that \<open>hcode AND mask\<close> selects, and
  \<^verbatim>\<open>size\<close> counts its nodes. The map is well formed under \<open>hm_ok\<close> when both tables are,
  no node is linked twice, and the older table is in use only while the newer one is.
\<close>

definition nodes_of :: "HTab \<Rightarrow> ptr list" where
  "nodes_of t = concat (tab t)"

definition hm_nodes :: "HMap \<Rightarrow> ptr list" where
  "hm_nodes m = nodes_of (newer m) @ nodes_of (older m)"

definition tab_ok :: "(ptr \<Rightarrow> 64 word) \<Rightarrow> HTab \<Rightarrow> bool" where
  "tab_ok hc t =
     ((tab t \<noteq> [] \<longrightarrow> length (tab t) = unat (mask t) + 1)
      \<and> (\<forall>i < length (tab t). \<forall>n \<in> set (tab t ! i). unat (hc n AND mask t) = i)
      \<and> size_h t = length (nodes_of t))"

definition hm_ok :: "(ptr \<Rightarrow> 64 word) \<Rightarrow> HMap \<Rightarrow> bool" where
  "hm_ok hc m =
     (tab_ok hc (newer m) \<and> tab_ok hc (older m) \<and> distinct (hm_nodes m)
      \<and> (tab (older m) \<noteq> [] \<longrightarrow> tab (newer m) \<noteq> []))"

text \<open>
  The keyspace of the event-loop server. \<open>entry_addr j\<close> is the address of the \<open>j\<close>-th
  \<^verbatim>\<open>new Entry()\<close>. \<open>db_ok a g\<close> holds after \<open>a\<close> allocations: the table is well formed,
  its nodes are entries allocated so far, each entry's \<^verbatim>\<open>hcode\<close> is the hash of its key and
  its value is within \<^verbatim>\<open>k_max_msg\<close>, no two entries share a key, and the newer table has at
  most \<open>max 4 a\<close> slots. \<open>db_abs g M\<close> says that the entries linked in the table are the
  bindings of the finite map \<open>M\<close>.

  \<open>run_requests\<close> runs \<^verbatim>\<open>do_request\<close> of CustomHashtable/main.cpp over a history of
  commands; it is \<open>None\<close> when an assertion fails on the way. \<open>small_value\<close> holds of a
  command whose value, if it has one, is within \<^verbatim>\<open>k_max_msg\<close>, as every value that
  arrives in a frame is.
\<close>

definition entry_addr :: "nat \<Rightarrow> ptr" where
  "entry_addr j = 4096 + sizeof_Entry * of_nat j"

definition db_ok :: "nat \<Rightarrow> g_data \<Rightarrow> bool" where
  "db_ok a g =
     (hm_ok (entry_hcode g) (db g)
      \<and> brk g = entry_addr a \<and> a < 2 ^ 56
      \<and> set (hm_nodes (db g)) \<subseteq> entry_addr ` {..<a}
      \<and> (\<forall>n \<in> set (hm_nodes (db g)).
            hcode (node (heap g n)) = str_hash (key (heap g n))
            \<and> length (val (heap g n)) \<le> k_max_msg)
      \<and> inj_on (\<lambda>n. key (heap g n)) (set (hm_nodes (db g)))
      \<and> length (tab (newer (db g))) \<le> max 4 a)"

definition db_abs :: "g_data \<Rightarrow> (bytes \<rightharpoonup> bytes) \<Rightarrow> bool" where
  "db_abs g M =
     (\<forall>k. case M k of
        Some v \<Rightarrow> \<exists>n \<in> set (hm_nodes (db g)). key (heap g n) = k \<and> val (heap g n) = v
      | None \<Rightarrow> \<forall>n \<in> set (hm_nodes (db g)). key (heap g n) \<noteq> k)"

fun run_requests :: "kv_cmd list \<Rightarrow> g_data \<Rightarrow> g_data option" where
  "run_requests [] g = Some g"
| "run_requests (c # cs) g =
     (case do_request (argv c) Response0 g of
        None \<Rightarrow> None
      | Some (resp, g') \<Rightarrow> run_requests cs g')"

fun small_value :: "kv_cmd \<Rightarrow> bool" where
  "small_value (Set k v) = (length v \<le> k_max_msg)"
| "small_value (Get k) = True"
| "small_value (Del k) = True"

section \<open>Sorted sets (RedisMain/zset.h, zset.cpp)\<close>

subsection \<open>Nodes and their layout\<close>

text \<open>
  \<^verbatim>\<open>
  struct ZNode {
      HNode hnode;    // for hashtable
      AVLNode anode;  // for AVL tree
      double score;
      char *name;
      size_t len;
  };
  struct ZSet { HMap hmap; AVLNode *root = nullptr; };
  \<close>
  Modelled from the spec: \<^verbatim>\<open>struct AVLNode\<close> of avl.h, which is missing; section 3 of the
  specification gives it the links \<open>left\<close>, \<open>right\<close>, \<open>parent\<close>, a \<open>height\<close> and a \<open>count\<close>
  (the size of the subtree).

  The \<open>name\<close> of the model is the \<open>len\<close> bytes at \<^verbatim>\<open>name\<close>, so \<^verbatim>\<open>len\<close> is its length. A
  score is a real number: the finite values of a \<^verbatim>\<open>double\<close>, compared as C compares them.
  The free store maps the address of a \<^verbatim>\<open>ZNode\<close> to its contents, and \<^verbatim>\<open>new ZNode()\<close>
  returns the address \<open>zbrk\<close>, as for the entries of the server.

  \<^verbatim>\<open>hnode\<close> is the first member, at offset 0. \<^verbatim>\<open>anode\<close> follows it, at offset
  \<^verbatim>\<open>sizeof(HNode)\<close>: a pointer and a \<^verbatim>\<open>uint64_t\<close>, 16 bytes. A pointer to the \<^verbatim>\<open>anode\<close> of
  the node at \<open>p\<close> is the address \<open>p + 16\<close>, and \<^verbatim>\<open>CONTAINER_OF(q, ZNode, anode)\<close> is
  \<open>q - 16\<close>.
\<close>

record AVLNode =
  parent :: ptr
  left :: ptr
  right :: ptr
  height :: "32 word"
  count :: "32 word"

record ZNode =
  hnode :: HNode
  anode :: AVLNode
  score :: real
  name :: bytes

record ZSet =
  hmap :: HMap
  root :: ptr

record zstore =
  znodes :: "ptr \<Rightarrow> ZNode"
  zbrk :: ptr

definition offsetof_ZNode_hnode :: "64 word" where
  "offsetof_ZNode_hnode = 0"

definition offsetof_ZNode_anode :: "64 word" where
  "offsetof_ZNode_anode = 16"

definition sizeof_ZNode :: "64 word" where
  "sizeof_ZNode = 72"

definition AVLNode0 :: AVLNode where
  "AVLNode0 = \<lparr>parent = nullptr, left = nullptr, right = nullptr, height = 0, count = 0\<rparr>"

definition ZNode0 :: ZNode where
  "ZNode0 = \<lparr>hnode = \<lparr>hcode = 0\<rparr>, anode = AVLNode0, score = 0, name = []\<rparr>"

definition ZSet0 :: ZSet where
  "ZSet0 = \<lparr>hmap = HMap0, root = nullptr\<rparr>"

definition zstore0 :: zstore where
  "zstore0 = \<lparr>znodes = (\<lambda>p. ZNode0), zbrk = 4096\<rparr>"

text \<open>
  Reading and writing the \<^verbatim>\<open>AVLNode\<close> at an address, which is the \<^verbatim>\<open>anode\<close> of the
  \<^verbatim>\<open>ZNode\<close> that contains it.
\<close>

type_synonym zheap = "ptr \<Rightarrow> ZNode"

definition an :: "zheap \<Rightarrow> ptr \<Rightarrow> AVLNode" where
  "an h q = anode (h (container_of q offsetof_ZNode_anode))"

definition an_upd :: "zheap \<Rightarrow> ptr \<Rightarrow> (AVLNode \<Rightarrow> AVLNode) \<Rightarrow> zheap" where
  "an_upd h q f =
     (let p = container_of q offsetof_ZNode_anode in h(p := (h p)\<lparr>anode := f (anode (h p))\<rparr>))"

subsection \<open>The AVL tree (avl.h and avl.cpp are not among the sources)\<close>

text \<open>
  Modelled from the spec: \<^verbatim>\<open>avl_init\<close>, \<^verbatim>\<open>avl_fix\<close>, \<^verbatim>\<open>avl_del\<close> and \<^verbatim>\<open>avl_offset\<close>, which
  zset.cpp calls and avl.cpp, missing, implements. Section 4.2 of the specification:
  \<^item> \<open>fix(node)\<close> recomputes height and count walking to the root, rotates (single or
    double) at each ancestor until balance is restored, and returns the new root of the
    whole tree;
  \<^item> \<open>del(node)\<close> is the standard AVL delete; an internal node is swapped with its in-order
    successor by relinking, not by copying the payload; then it fixes upward;
  \<^item> \<open>offset(node, k)\<close> navigates by rank with the subtree counts (moving right adds
    \<open>left.count + 1\<close>, moving up from a left child adds \<open>1 + right.count\<close>, and
    symmetrically), and returns the node at rank \<open>rank(node) + k\<close>, or none if out of range.
  \<open>avl_init\<close> makes a node a tree of its own: no links, height 1, count 1. The loops follow
  pointers, so they are partial: \<open>None\<close> is a loop that does not end.
\<close>

definition avl_init :: "zheap \<Rightarrow> ptr \<Rightarrow> zheap" where
  "avl_init h q =
     an_upd h q (\<lambda>a. \<lparr>parent = nullptr, left = nullptr, right = nullptr, height = 1, count = 1\<rparr>)"

definition avl_height :: "zheap \<Rightarrow> ptr \<Rightarrow> 32 word" where
  "avl_height h q = (if q \<noteq> nullptr then height (an h q) else 0)"

definition avl_count :: "zheap \<Rightarrow> ptr \<Rightarrow> 32 word" where
  "avl_count h q = (if q \<noteq> nullptr then count (an h q) else 0)"

definition avl_update :: "zheap \<Rightarrow> ptr \<Rightarrow> zheap" where
  "avl_update h q =
     an_upd h q (\<lambda>a. a\<lparr>height := 1 + max (avl_height h (left a)) (avl_height h (right a)),
                       count := 1 + avl_count h (left a) + avl_count h (right a)\<rparr>)"

definition rot_left :: "zheap \<Rightarrow> ptr \<Rightarrow> zheap \<times> ptr" where
  "rot_left h q =
     (let up = parent (an h q);
          new_node = right (an h q);
          inner = left (an h new_node);
          h1 = an_upd h q (\<lambda>a. a\<lparr>right := inner\<rparr>);
          h2 = (if inner \<noteq> nullptr then an_upd h1 inner (\<lambda>a. a\<lparr>parent := q\<rparr>) else h1);
          h3 = an_upd h2 new_node (\<lambda>a. a\<lparr>parent := up, left := q\<rparr>);
          h4 = an_upd h3 q (\<lambda>a. a\<lparr>parent := new_node\<rparr>);
          h5 = avl_update h4 q
      in (avl_update h5 new_node, new_node))"

definition rot_right :: "zheap \<Rightarrow> ptr \<Rightarrow> zheap \<times> ptr" where
  "rot_right h q =
     (let up = parent (an h q);
          new_node = left (an h q);
          inner = right (an h new_node);
          h1 = an_upd h q (\<lambda>a. a\<lparr>left := inner\<rparr>);
          h2 = (if inner \<noteq> nullptr then an_upd h1 inner (\<lambda>a. a\<lparr>parent := q\<rparr>) else h1);
          h3 = an_upd h2 new_node (\<lambda>a. a\<lparr>parent := up, right := q\<rparr>);
          h4 = an_upd h3 q (\<lambda>a. a\<lparr>parent := new_node\<rparr>);
          h5 = avl_update h4 q
      in (avl_update h5 new_node, new_node))"

definition avl_fix_left :: "zheap \<Rightarrow> ptr \<Rightarrow> zheap \<times> ptr" where
  "avl_fix_left h q =
     (let l = left (an h q);
          h1 = (if avl_height h (left (an h l)) < avl_height h (right (an h l))
                then (let (h', l') = rot_left h l in an_upd h' q (\<lambda>a. a\<lparr>left := l'\<rparr>))
                else h)
      in rot_right h1 q)"

definition avl_fix_right :: "zheap \<Rightarrow> ptr \<Rightarrow> zheap \<times> ptr" where
  "avl_fix_right h q =
     (let r = right (an h q);
          h1 = (if avl_height h (right (an h r)) < avl_height h (left (an h r))
                then (let (h', r') = rot_right h r in an_upd h' q (\<lambda>a. a\<lparr>right := r'\<rparr>))
                else h)
      in rot_left h1 q)"

definition avl_fix_step :: "zheap \<Rightarrow> ptr \<Rightarrow> zheap \<times> ptr" where
  "avl_fix_step h q =
     (let up = parent (an h q);
          from_left = (up \<noteq> nullptr \<and> left (an h up) = q);
          h1 = avl_update h q;
          l = avl_height h1 (left (an h1 q));
          r = avl_height h1 (right (an h1 q));
          (h2, sub) = (if l = r + 2 then avl_fix_left h1 q
                       else if l + 2 = r then avl_fix_right h1 q
                       else (h1, q));
          h3 = (if up \<noteq> nullptr \<and> (l = r + 2 \<or> l + 2 = r)
                then (if from_left then an_upd h2 up (\<lambda>a. a\<lparr>left := sub\<rparr>)
                      else an_upd h2 up (\<lambda>a. a\<lparr>right := sub\<rparr>))
                else h2)
      in (h3, sub))"

partial_function (option) avl_fix :: "zheap \<Rightarrow> ptr \<Rightarrow> (zheap \<times> ptr) option" where
  "avl_fix h q =
     (let up = parent (an h q)
      in case avl_fix_step h q of
           (h', sub) \<Rightarrow> if up = nullptr then Some (h', sub) else avl_fix h' up)"

declare avl_fix.simps [code]

definition avl_del_easy :: "zheap \<Rightarrow> ptr \<Rightarrow> (zheap \<times> ptr) option" where
  "avl_del_easy h q =
     (let child = (if left (an h q) \<noteq> nullptr then left (an h q) else right (an h q));
          up = parent (an h q);
          h1 = (if child \<noteq> nullptr then an_upd h child (\<lambda>a. a\<lparr>parent := up\<rparr>) else h)
      in if up = nullptr then Some (h1, child)
         else avl_fix
                (if left (an h1 up) = q then an_upd h1 up (\<lambda>a. a\<lparr>left := child\<rparr>)
                 else an_upd h1 up (\<lambda>a. a\<lparr>right := child\<rparr>))
                up)"

partial_function (option) leftmost :: "zheap \<Rightarrow> ptr \<Rightarrow> ptr option" where
  "leftmost h q = (if left (an h q) \<noteq> nullptr then leftmost h (left (an h q)) else Some q)"

declare leftmost.simps [code]

definition avl_del :: "zheap \<Rightarrow> ptr \<Rightarrow> (zheap \<times> ptr) option" where
  "avl_del h q =
     (if left (an h q) = nullptr \<or> right (an h q) = nullptr then avl_del_easy h q
      else
        (case leftmost h (right (an h q)) of
           None \<Rightarrow> None
         | Some victim \<Rightarrow>
             (case avl_del_easy h victim of
                None \<Rightarrow> None
              | Some (h1, root1) \<Rightarrow>
                  (let h2 = an_upd h1 victim (\<lambda>a. an h1 q);
                       h3 = (if left (an h2 victim) \<noteq> nullptr
                             then an_upd h2 (left (an h2 victim)) (\<lambda>a. a\<lparr>parent := victim\<rparr>)
                             else h2);
                       h4 = (if right (an h3 victim) \<noteq> nullptr
                             then an_upd h3 (right (an h3 victim)) (\<lambda>a. a\<lparr>parent := victim\<rparr>)
                             else h3);
                       up = parent (an h4 q)
                   in if up = nullptr then Some (h4, victim)
                      else Some (if left (an h4 up) = q
                                 then an_upd h4 up (\<lambda>a. a\<lparr>left := victim\<rparr>)
                                 else an_upd h4 up (\<lambda>a. a\<lparr>right := victim\<rparr>),
                                 root1)))))"

partial_function (option) avl_offset_loop :: "zheap \<Rightarrow> ptr \<Rightarrow> int \<Rightarrow> int \<Rightarrow> ptr option" where
  "avl_offset_loop h q pos k =
     (if k = pos then Some q
      else if pos < k \<and> pos + uint (avl_count h (right (an h q))) \<ge> k then
        avl_offset_loop h (right (an h q))
          (pos + uint (avl_count h (left (an h (right (an h q))))) + 1) k
      else if pos > k \<and> pos - uint (avl_count h (left (an h q))) \<le> k then
        avl_offset_loop h (left (an h q))
          (pos - uint (avl_count h (right (an h (left (an h q))))) - 1) k
      else
        (let up = parent (an h q)
         in if up = nullptr then Some nullptr
            else if right (an h up) = q then
              avl_offset_loop h up (pos - uint (avl_count h (left (an h q))) - 1) k
            else
              avl_offset_loop h up (pos + uint (avl_count h (right (an h q))) + 1) k))"

declare avl_offset_loop.simps [code]

definition avl_offset :: "zheap \<Rightarrow> ptr \<Rightarrow> int \<Rightarrow> ptr option" where
  "avl_offset h q k = avl_offset_loop h q 0 k"

subsection \<open>zset.cpp\<close>

text \<open>
  \<^verbatim>\<open>
  static bool znode_eq(HNode *node, HNode *key) {
      ZNode *znode = CONTAINER_OF(node, ZNode, hnode);
      ZNode *keynode = CONTAINER_OF(key, ZNode, hnode);
      return znode->len == keynode->len && memcmp(znode->name, keynode->name, znode->len) == 0;
  }
  static int znode_cmp(ZNode *a, ZNode *b) {
      if (a->score != b->score) { return a->score < b->score ? -1 : 1; }
      return memcmp(a->name, b->name, a->len < b->len ? a->len : b->len);
  }
  \<close>
  \<open>memcmp a b n\<close> compares the first \<open>n\<close> bytes as unsigned values and returns the sign
  of the first difference; the callers use nothing but the sign. Both functions are given
  the nodes their arguments point to.
\<close>

fun memcmp :: "bytes \<Rightarrow> bytes \<Rightarrow> nat \<Rightarrow> int" where
  "memcmp (x # a) (y # b) (Suc n) = (if x = y then memcmp a b n else if x < y then - 1 else 1)"
| "memcmp a b n = 0"

definition znode_eq :: "ZNode \<Rightarrow> ZNode \<Rightarrow> bool" where
  "znode_eq znode keynode =
     (length (name znode) = length (name keynode)
      \<and> memcmp (name znode) (name keynode) (length (name znode)) = 0)"

definition znode_cmp :: "ZNode \<Rightarrow> ZNode \<Rightarrow> int" where
  "znode_cmp a b =
     (if score a \<noteq> score b then (if score a < score b then - 1 else 1)
      else memcmp (name a) (name b)
             (if length (name a) < length (name b) then length (name a) else length (name b)))"

definition CONTAINER_OF :: "ptr \<Rightarrow> 64 word \<Rightarrow> ptr" where
  "CONTAINER_OF p off = container_of p off"

definition znode_hcode :: "zheap \<Rightarrow> ptr \<Rightarrow> 64 word" where
  "znode_hcode h q = hcode (hnode (h (CONTAINER_OF q offsetof_ZNode_hnode)))"

definition znode_key :: "bytes \<Rightarrow> real \<Rightarrow> ZNode" where
  "znode_key nm sc = \<lparr>hnode = \<lparr>hcode = str_hash nm\<rparr>, anode = AVLNode0, score = sc, name = nm\<rparr>"

text \<open>
  \<^verbatim>\<open>
  bool zset_insert(ZSet *zset, const char *name, size_t len, double score) {
      ZNode key;
      key.hnode.hcode = str_hash((const uint8_t *)name, len);
      key.name = (char *)name;
      key.len = len;
      HNode *hnode = hm_lookup(&zset->hmap, &key.hnode, &znode_eq);
      if (hnode) {
          ZNode *znode = CONTAINER_OF(hnode, ZNode, hnode);
          if (znode->score == score) { return false; }
          zset->root = avl_del(&znode->anode);
          znode->score = score;
          zset->root = avl_fix(&znode->anode);
          return false;
      }
      ZNode *znode = new ZNode();
      znode->hnode.hcode = key.hnode.hcode;
      znode->score = score;
      znode->len = len;
      znode->name = (char *)malloc(len);
      memcpy(znode->name, name, len);
      avl_init(&znode->anode);
      hm_insert(&zset->hmap, &znode->hnode);
      zset->root = avl_fix(&znode->anode);
      return true;
  }
  \<close>
  \<open>znode_key\<close> is the local \<^verbatim>\<open>ZNode key\<close> (and \<^verbatim>\<open>tmp\<close> of \<^verbatim>\<open>zset_seekge\<close>); the fields
  the code leaves unset are not read. The functions take the set and the free store and
  return them with the result.
\<close>

definition zset_insert ::
  "ZSet \<Rightarrow> zstore \<Rightarrow> bytes \<Rightarrow> real \<Rightarrow> (bool \<times> ZSet \<times> zstore) option" where
  "zset_insert zset st nm sc =
     (let k = znode_key nm sc;
          (hm1, hn) = hm_lookup (znode_hcode (znodes st)) (hmap zset) (hnode k)
                        (\<lambda>x. znode_eq (znodes st (CONTAINER_OF x offsetof_ZNode_hnode)) k);
          zset1 = zset\<lparr>hmap := hm1\<rparr>
      in if hn \<noteq> nullptr then
           (let znode = CONTAINER_OF hn offsetof_ZNode_hnode
            in if score (znodes st znode) = sc then Some (False, zset1, st)
               else (case avl_del (znodes st) (znode + offsetof_ZNode_anode) of
                       None \<Rightarrow> None
                     | Some (h1, root1) \<Rightarrow>
                         (let h2 = h1(znode := (h1 znode)\<lparr>score := sc\<rparr>)
                          in case avl_fix h2 (znode + offsetof_ZNode_anode) of
                               None \<Rightarrow> None
                             | Some (h3, root2) \<Rightarrow>
                                 Some (False, zset1\<lparr>root := root2\<rparr>, st\<lparr>znodes := h3\<rparr>))))
         else
           (let znode = zbrk st;
                h1 = (znodes st)(znode := \<lparr>hnode = \<lparr>hcode = hcode (hnode k)\<rparr>, anode = AVLNode0,
                                           score = sc, name = nm\<rparr>);
                h2 = avl_init h1 (znode + offsetof_ZNode_anode);
                hm2 = hm_insert (znode_hcode h2) hm1 (znode + offsetof_ZNode_hnode)
            in case avl_fix h2 (znode + offsetof_ZNode_anode) of
                 None \<Rightarrow> None
               | Some (h3, root1) \<Rightarrow>
                   Some (True, \<lparr>hmap = hm2, root = root1\<rparr>,
                         \<lparr>znodes = h3, zbrk = zbrk st + sizeof_ZNode\<rparr>)))"

text \<open>
  \<^verbatim>\<open>
  void zset_delete(ZSet *zset, ZNode *znode) {
      zset->root = avl_del(&znode->anode);
      hm_delete(&zset->hmap, &znode->hnode, &znode_eq);
      free(znode->name);
      delete znode;
  }
  ZNode *zset_lookup(ZSet *zset, const char *name, size_t len) {
      ZNode key;
      key.hnode.hcode = str_hash((const uint8_t *)name, len);
      key.name = (char *)name;
      key.len = len;
      HNode *hnode = hm_lookup(&zset->hmap, &key.hnode, &znode_eq);
      return hnode ? CONTAINER_OF(hnode, ZNode, hnode) : nullptr;
  }
  \<close>
\<close>

definition zset_delete :: "ZSet \<Rightarrow> zstore \<Rightarrow> ptr \<Rightarrow> (ZSet \<times> zstore) option" where
  "zset_delete zset st znode =
     (case avl_del (znodes st) (znode + offsetof_ZNode_anode) of
        None \<Rightarrow> None
      | Some (h1, root1) \<Rightarrow>
          (let (hm1, hn) = hm_delete (znode_hcode h1) (hmap zset) (hnode (h1 znode))
                             (\<lambda>x. znode_eq (h1 (CONTAINER_OF x offsetof_ZNode_hnode)) (h1 znode))
           in Some (\<lparr>hmap = hm1, root = root1\<rparr>, st\<lparr>znodes := h1\<rparr>)))"

definition zset_lookup :: "ZSet \<Rightarrow> zstore \<Rightarrow> bytes \<Rightarrow> ZSet \<times> ptr" where
  "zset_lookup zset st nm =
     (let k = znode_key nm 0;
          (hm1, hn) = hm_lookup (znode_hcode (znodes st)) (hmap zset) (hnode k)
                        (\<lambda>x. znode_eq (znodes st (CONTAINER_OF x offsetof_ZNode_hnode)) k)
      in (zset\<lparr>hmap := hm1\<rparr>,
          if hn \<noteq> nullptr then CONTAINER_OF hn offsetof_ZNode_hnode else nullptr))"

text \<open>
  \<^verbatim>\<open>
  ZNode *zset_seekge(ZSet *zset, double score, const char *name, size_t len) {
      ZNode *cur = zset->root ? CONTAINER_OF(zset->root, ZNode, anode) : nullptr;
      ZNode *best = nullptr;
      while (cur) {
          ZNode tmp;
          tmp.score = score;  tmp.name = (char *)name;  tmp.len = len;
          int cmp = znode_cmp(cur, &tmp);
          if (cmp == 0) { return cur; }
          if (cmp < 0) {
              cur = cur->anode.right ? CONTAINER_OF(cur->anode.right, ZNode, anode) : nullptr;
          } else {
              best = cur;
              cur = cur->anode.left ? CONTAINER_OF(cur->anode.left, ZNode, anode) : nullptr;
          }
      }
      return best;
  }
  ZNode *znode_offset(ZNode *znode, int64_t offset) {
      return znode ? CONTAINER_OF(avl_offset(&znode->anode, offset), ZNode, anode) : nullptr;
  }
  \<close>
  The loop of \<^verbatim>\<open>zset_seekge\<close> follows the links of the tree and is partial like the loops
  of the tree itself. In \<^verbatim>\<open>znode_offset\<close> the macro is applied to whatever \<^verbatim>\<open>avl_offset\<close>
  returns.
\<close>

partial_function (option) zset_seekge_loop :: "zheap \<Rightarrow> ZNode \<Rightarrow> ptr \<Rightarrow> ptr \<Rightarrow> ptr option" where
  "zset_seekge_loop h tmp cur best =
     (if cur \<noteq> nullptr then
        (let cmp = znode_cmp (h cur) tmp
         in if cmp = 0 then Some cur
            else if cmp < 0 then
              zset_seekge_loop h tmp
                (if right (anode (h cur)) \<noteq> nullptr
                 then CONTAINER_OF (right (anode (h cur))) offsetof_ZNode_anode else nullptr)
                best
            else
              zset_seekge_loop h tmp
                (if left (anode (h cur)) \<noteq> nullptr
                 then CONTAINER_OF (left (anode (h cur))) offsetof_ZNode_anode else nullptr)
                cur)
      else Some best)"

declare zset_seekge_loop.simps [code]

definition zset_seekge :: "ZSet \<Rightarrow> zstore \<Rightarrow> real \<Rightarrow> bytes \<Rightarrow> ptr option" where
  "zset_seekge zset st sc nm =
     zset_seekge_loop (znodes st) (znode_key nm sc)
       (if root zset \<noteq> nullptr then CONTAINER_OF (root zset) offsetof_ZNode_anode else nullptr)
       nullptr"

definition znode_offset :: "zstore \<Rightarrow> ptr \<Rightarrow> int \<Rightarrow> ptr option" where
  "znode_offset st znode k =
     (if znode \<noteq> nullptr then
        (case avl_offset (znodes st) (znode + offsetof_ZNode_anode) k of
           None \<Rightarrow> None
         | Some q \<Rightarrow> Some (CONTAINER_OF q offsetof_ZNode_anode))
      else Some nullptr)"

text \<open>
  \<^verbatim>\<open>
  void zset_clear(ZSet *zset) {
      while (zset->root) {
          ZNode *znode = CONTAINER_OF(zset->root, ZNode, anode);
          zset->root = avl_del(&znode->anode);
          hm_delete(&zset->hmap, &znode->hnode, &znode_eq);
          free(znode->name);
          delete znode;
      }
      hm_clear(&zset->hmap);
  }
  \<close>
\<close>

partial_function (option) zset_clear_loop :: "ZSet \<Rightarrow> zstore \<Rightarrow> (ZSet \<times> zstore) option" where
  "zset_clear_loop zset st =
     (if root zset \<noteq> nullptr then
        (case zset_delete zset st (CONTAINER_OF (root zset) offsetof_ZNode_anode) of
           None \<Rightarrow> None
         | Some (zset', st') \<Rightarrow> zset_clear_loop zset' st')
      else Some (zset, st))"

declare zset_clear_loop.simps [code]

definition zset_clear :: "ZSet \<Rightarrow> zstore \<Rightarrow> (ZSet \<times> zstore) option" where
  "zset_clear zset st =
     (case zset_clear_loop zset st of
        None \<Rightarrow> None
      | Some (zset', st') \<Rightarrow> Some (zset'\<lparr>hmap := hm_clear (hmap zset')\<rparr>, st'))"

text \<open>
  What the claims about sorted sets speak of. \<open>tree_nodes n h q\<close> lists, in order, the nodes
  of the tree rooted at \<open>q\<close>, down to depth \<open>n\<close>. \<open>key_less\<close> is the order of the
  specification on keys (score, name): scores compared numerically, ties broken by the
  lexicographic order of the names as byte strings, in full (\<open>bytes_less\<close>: the first
  differing byte decides, and a proper prefix is less).
\<close>

fun tree_nodes :: "nat \<Rightarrow> zheap \<Rightarrow> ptr \<Rightarrow> ptr list" where
  "tree_nodes 0 h q = []"
| "tree_nodes (Suc n) h q =
     (if q = nullptr then []
      else tree_nodes n h (left (an h q)) @ [q] @ tree_nodes n h (right (an h q)))"

fun bytes_less :: "bytes \<Rightarrow> bytes \<Rightarrow> bool" where
  "bytes_less [] (y # b) = True"
| "bytes_less (x # a) (y # b) = (x < y \<or> (x = y \<and> bytes_less a b))"
| "bytes_less a [] = False"

definition key_less :: "real \<times> bytes \<Rightarrow> real \<times> bytes \<Rightarrow> bool" where
  "key_less a b = (fst a < fst b \<or> (fst a = fst b \<and> bytes_less (snd a) (snd b)))"

section \<open>Proofs: the hash\<close>

lemma unat_ucast_byte_u32: "unat (ucast (b :: byte) :: 32 word) = unat b"
proof -
  have "unat b < 2 ^ 32"
    using unsigned_less [of b, where 'a = nat] by simp
  then show ?thesis
    by (simp add: unsigned_ucast_eq take_bit_nat_eq_self)
qed

lemma unat_str_hash_step:
  "unat ((h + ucast (b :: byte)) * (0x01000193 :: 32 word))
     = ((unat h + unat b) * 0x01000193) mod 2 ^ 32"
proof -
  have "unat ((h + ucast b) * (0x01000193 :: 32 word))
          = (unat (h + ucast b) * unat (0x01000193 :: 32 word)) mod 2 ^ 32"
    by (simp only: unat_word_ariths) simp
  also have "unat (h + (ucast b :: 32 word)) = (unat h + unat b) mod 2 ^ 32"
    by (simp only: unat_word_ariths unat_ucast_byte_u32) simp
  also have "unat (0x01000193 :: 32 word) = 0x01000193" by simp
  finally show ?thesis by (simp only: mod_mult_left_eq)
qed

lemma unat_str_hash_loop: "unat (str_hash_loop h bs) = fnv_acc (unat h) bs"
proof (induction bs arbitrary: h)
  case Nil
  show ?case by simp
next
  case (Cons b bs)
  have "unat (str_hash_loop h (b # bs))
          = fnv_acc (unat ((h + ucast b) * (0x01000193 :: 32 word))) bs"
    using Cons.IH by simp
  then show ?case by (simp only: unat_str_hash_step fnv_acc.simps)
qed

lemma unat_str_hash: "unat (str_hash bs) = unat (str_hash_loop 0x811C9DC5 bs)"
proof -
  have "unat (str_hash_loop 0x811C9DC5 bs) < 2 ^ 64"
    using unsigned_less [of "str_hash_loop 0x811C9DC5 bs", where 'a = nat]
    by (simp add: order_less_trans)
  then show ?thesis
    by (simp add: str_hash_def unsigned_ucast_eq take_bit_nat_eq_self)
qed

text \<open>
  C9. \<open>str_hash\<close> is a function of the input bytes alone; its value is the 32-bit
  accumulation \<open>h := (h + byte) * 0x01000193 mod 2^32\<close> started at \<open>0x811C9DC5\<close>, so it is
  below \<open>2^32\<close> and the upper 32 bits of the 64-bit result are zero.
\<close>

theorem str_hash_is_32bit_fnv:
  "unat (str_hash bs) = fnv_acc 0x811C9DC5 bs
   \<and> unat (str_hash bs) < 2 ^ 32
   \<and> drop_bit 32 (str_hash bs) = 0"
proof -
  have eq: "unat (str_hash bs) = fnv_acc 0x811C9DC5 bs"
    using unat_str_hash_loop [of "0x811C9DC5" bs] by (simp add: unat_str_hash)
  have lt: "unat (str_hash bs) < 2 ^ 32"
    using unsigned_less [of "str_hash_loop 0x811C9DC5 bs", where 'a = nat]
    by (simp add: unat_str_hash)
  have "unat (drop_bit 32 (str_hash bs)) = drop_bit 32 (unat (str_hash bs))"
    by (rule unat_drop_bit_eq)
  also have "\<dots> = 0"
    using lt by (simp add: drop_bit_eq_div)
  finally have "unat (drop_bit 32 (str_hash bs)) = 0" .
  then have "drop_bit 32 (str_hash bs) = 0"
    by (simp only: unat_eq_0)
  with eq lt show ?thesis by simp
qed


subsection \<open>Encoding and decoding of 32-bit integers\<close>

lemma unat_byte_of_u32:
  "unat (ucast (drop_bit k (w :: 32 word)) :: byte) = (unat w div 2 ^ k) mod 256"
proof -
  have "unat (ucast (drop_bit k w) :: byte) = take_bit 8 (unat (drop_bit k w))"
    by (simp only: unsigned_ucast_eq) simp
  also have "\<dots> = take_bit 8 (drop_bit k (unat w))"
    by (simp only: unat_drop_bit_eq)
  finally show ?thesis by (simp add: take_bit_eq_mod drop_bit_eq_div)
qed

lemma unat_byte_lt: "unat (a :: byte) < 256"
  using unsigned_less [of a, where 'a = nat] by simp

lemma unat_u32_lt: "unat (w :: 32 word) < 4294967296"
  using unsigned_less [of w, where 'a = nat] by simp

lemma nat_of_le_digits:
  fixes a b c d :: nat
  assumes "a < 256" "b < 256" "c < 256" "d < 256"
  defines "N \<equiv> a + 256 * b + 65536 * c + 16777216 * d"
  shows "N < 4294967296" "N mod 256 = a" "N div 256 mod 256 = b"
        "N div 65536 mod 256 = c" "N div 16777216 mod 256 = d"
proof -
  define M1 where "M1 = b + 256 * c + 65536 * d"
  define M2 where "M2 = c + 256 * d"
  have N1: "N = a + 256 * M1" by (simp add: N_def M1_def)
  have N2: "M1 = b + 256 * M2" by (simp add: M1_def M2_def)
  show "N < 4294967296" using assms by (simp add: N_def)
  show "N mod 256 = a" using assms(1) unfolding N1 by simp
  have d1: "N div 256 = M1" using assms(1) unfolding N1 by simp
  have m1: "M1 mod 256 = b" using assms(2) unfolding N2 by simp
  show "N div 256 mod 256 = b" using m1 by (simp only: d1)
  have d2: "M1 div 256 = M2" using assms(2) unfolding N2 by simp
  have e2: "N div 65536 = M2"
    using d1 d2 div_mult2_eq [of N 256 256] by simp
  have m2: "M2 mod 256 = c" using assms(3) unfolding M2_def by simp
  show "N div 65536 mod 256 = c" using m2 by (simp only: e2)
  have d3: "M2 div 256 = d" using assms(3) unfolding M2_def by simp
  have e3: "N div 16777216 = d"
    using e2 d3 div_mult2_eq [of N 65536 256] by simp
  show "N div 16777216 mod 256 = d" using assms(4) unfolding e3 by simp
qed

lemma le_digits_of_nat:
  assumes "(n::nat) < 4294967296"
  shows "n mod 256 + 256 * (n div 256 mod 256) + 65536 * (n div 65536 mod 256)
           + 16777216 * (n div 16777216 mod 256) = n"
proof -
  define q1 where "q1 = n div 256"
  define q2 where "q2 = q1 div 256"
  define q3 where "q3 = q2 div 256"
  have a: "n = n mod 256 + 256 * q1" by (simp add: q1_def)
  have b: "q1 = q1 mod 256 + 256 * q2" by (simp add: q2_def)
  have c: "q2 = q2 mod 256 + 256 * q3" by (simp add: q3_def)
  have e2: "n div 65536 = q2"
    using div_mult2_eq [of n 256 256] by (simp add: q1_def q2_def)
  have e3: "n div 16777216 = q3"
    using div_mult2_eq [of n 65536 256] e2 by (simp add: q3_def)
  have "q3 < 256" using assms unfolding e3 [symmetric] by simp
  then have d: "q3 mod 256 = q3" by simp
  have "n mod 256 + 256 * (q1 mod 256) + 65536 * (q2 mod 256) + 16777216 * (q3 mod 256) = n"
    using a b c d by linarith
  then show ?thesis by (simp only: e2 e3 q1_def [symmetric])
qed

lemma u32_of_bytes_of_u32 [simp]: "u32_of_bytes (bytes_of_u32 w) = w"
proof -
  have "unat (ucast w :: byte) = unat w mod 256"
    using unat_byte_of_u32 [of 0 w] by simp
  then have "u32_of_bytes (bytes_of_u32 w) = of_nat (unat w mod 256 + 256 * (unat w div 256 mod 256)
     + 65536 * (unat w div 65536 mod 256) + 16777216 * (unat w div 16777216 mod 256))"
    using unat_byte_of_u32 [of 8 w] unat_byte_of_u32 [of 16 w] unat_byte_of_u32 [of 24 w]
    unfolding u32_of_bytes_def bytes_of_u32_def
    by (simp del: of_nat_add of_nat_mult)
  also have "\<dots> = of_nat (unat w)"
    by (simp only: le_digits_of_nat [OF unat_u32_lt])
  finally show ?thesis by simp
qed

lemma length_4_cases: "length bs = 4 \<Longrightarrow> \<exists>a b c d. bs = [a, b, c, d]"
  by (auto simp add: length_Suc_conv numeral_eq_Suc)

lemma bytes_of_u32_of_bytes: "length bs = 4 \<Longrightarrow> bytes_of_u32 (u32_of_bytes bs) = bs"
proof -
  assume "length bs = 4"
  then obtain a b c d where bs: "bs = [a, b, c, d]" using length_4_cases by blast
  define N where "N = unat a + 256 * unat b + 65536 * unat c + 16777216 * unat d"
  note aux = nat_of_le_digits [OF unat_byte_lt [of a] unat_byte_lt [of b] unat_byte_lt [of c]
      unat_byte_lt [of d], folded N_def]
  have u: "u32_of_bytes [a, b, c, d] = of_nat N" by (simp add: u32_of_bytes_def N_def)
  have un: "unat (of_nat N :: 32 word) = N"
    using aux(1) by (simp only: unat_of_nat) simp
  have "unat (ucast (of_nat N :: 32 word) :: byte) = unat a"
    using unat_byte_of_u32 [of 0 "of_nat N"] aux(2) by (simp only: un) simp
  moreover have "unat (ucast (drop_bit 8 (of_nat N :: 32 word)) :: byte) = unat b"
    using unat_byte_of_u32 [of 8 "of_nat N"] aux(3) by (simp only: un) simp
  moreover have "unat (ucast (drop_bit 16 (of_nat N :: 32 word)) :: byte) = unat c"
    using unat_byte_of_u32 [of 16 "of_nat N"] aux(4) by (simp only: un) simp
  moreover have "unat (ucast (drop_bit 24 (of_nat N :: 32 word)) :: byte) = unat d"
    using unat_byte_of_u32 [of 24 "of_nat N"] aux(5) by (simp only: un) simp
  ultimately show ?thesis
    unfolding bs bytes_of_u32_def u by (simp only: word_unat_eq_iff list.inject simp_thms)
qed

lemma length_bytes_of_u32 [simp]: "length (bytes_of_u32 w) = 4"
  by (simp add: bytes_of_u32_def)

lemma read_u32_append [simp]: "read_u32 (bytes_of_u32 w @ rest) = Some (w, rest)"
  by (simp add: read_u32_def)

lemma read_u32_SomeD:
  assumes "read_u32 cur = Some (w, cur')"
  shows "cur = bytes_of_u32 w @ cur'"
proof -
  from assms have len: "4 \<le> length cur" and w: "w = u32_of_bytes (take 4 cur)"
    and c: "cur' = drop 4 cur"
    by (auto simp: read_u32_def split: if_splits)
  have "bytes_of_u32 w = take 4 cur"
    unfolding w using len by (intro bytes_of_u32_of_bytes) simp
  then show ?thesis by (simp add: c)
qed

lemma read_str_append [simp]: "read_str (s @ rest) (length s) = Some (s, rest)"
  by (simp add: read_str_def)

lemma read_str_SomeD:
  "read_str cur n = Some (s, cur') \<Longrightarrow> cur = s @ cur' \<and> length s = n"
  by (auto simp: read_str_def split: if_splits)

lemma unat_of_nat_u32: "n < 2 ^ 32 \<Longrightarrow> unat (of_nat n :: 32 word) = n"
  by (simp add: unat_of_nat)


lemma read_u32_exact [simp]: "read_u32 (bytes_of_u32 w) = Some (w, [])"
  using read_u32_append [of w "[]"] by simp

subsection \<open>The parser accepts exactly the encoded argument vectors\<close>

lemma parse_req_loop_encoded:
  "list_all fits_u32 ss \<Longrightarrow>
   parse_req_loop (length out + length ss) (concat (map encode_str ss) @ rest) out
     = Some (out @ ss, rest)"
proof (induction ss arbitrary: out)
  case Nil
  show ?case by (simp add: parse_req_loop.simps)
next
  case (Cons s ss)
  from Cons.prems have fs: "fits_u32 s" and ss: "list_all fits_u32 ss"
    by simp_all
  from fs have s: "length s < 2 ^ 32" by (simp add: fits_u32_def)
  have step: "parse_req_loop (length out + length (s # ss)) (concat (map encode_str (s # ss)) @ rest) out
      = parse_req_loop (length (out @ [s]) + length ss) (concat (map encode_str ss) @ rest) (out @ [s])"
    by (subst parse_req_loop.simps) (simp add: encode_str_def unat_of_nat_u32 [OF s])
  show ?case unfolding step using Cons.IH [OF ss, of "out @ [s]"] by simp
qed

lemma parse_req_loop_SomeD:
  "parse_req_loop nstr cur out = Some (out', cur') \<Longrightarrow> length out \<le> nstr \<Longrightarrow>
   \<exists>ss. out' = out @ ss \<and> length out' = nstr \<and> list_all fits_u32 ss
        \<and> cur = concat (map encode_str ss) @ cur'"
proof (induction nstr cur out rule: parse_req_loop.induct)
  case (1 nstr cur out)
  show ?case
  proof (cases "length out < nstr")
    case False
    with "1.prems" show ?thesis
      by (subst (asm) parse_req_loop.simps) simp
  next
    case True
    with "1.prems"(1) obtain len cur1 s cur2 where
      r1: "read_u32 cur = Some (len, cur1)" and
      r2: "read_str cur1 (unat len) = Some (s, cur2)" and
      rec: "parse_req_loop nstr cur2 (out @ [s]) = Some (out', cur')"
      by (subst (asm) parse_req_loop.simps) (auto split: option.splits)
    from True have le: "length (out @ [s]) \<le> nstr" by simp
    from "1.IH" [OF True r1 refl r2 refl rec le]
    obtain ss where ss: "out' = (out @ [s]) @ ss" "length out' = nstr" "list_all fits_u32 ss"
      "cur2 = concat (map encode_str ss) @ cur'" by blast
    from read_str_SomeD [OF r2] have c1: "cur1 = s @ cur2" and ls: "length s = unat len" by simp_all
    have fs: "fits_u32 s" using unat_u32_lt [of len] by (simp add: fits_u32_def ls)
    have "of_nat (length s) = len" by (simp add: ls)
    then have c: "cur = encode_str s @ cur2"
      using read_u32_SomeD [OF r1] c1 by (simp add: encode_str_def)
    show ?thesis
      by (rule exI [of _ "s # ss"]) (use ss fs c in simp)
  qed
qed

lemma parse_req_lim_iff:
  assumes kmax: "kmax < 2 ^ 32"
  shows "parse_req_lim kmax buf [] = Some cmd \<longleftrightarrow>
     length cmd \<le> kmax \<and> list_all fits_u32 cmd \<and> buf = encode_req cmd"
proof
  assume "parse_req_lim kmax buf [] = Some cmd"
  then obtain nstr cur cur' where r: "read_u32 buf = Some (nstr, cur)" and n: "unat nstr \<le> kmax"
    and l: "parse_req_loop (unat nstr) cur [] = Some (cmd, cur')" and e: "cur' = []"
    by (auto simp: parse_req_lim_def split: option.splits if_splits)
  from parse_req_loop_SomeD [OF l] obtain ss where ss: "cmd = ss" "length cmd = unat nstr"
    "list_all fits_u32 ss" "cur = concat (map encode_str ss) @ cur'" by auto
  have "of_nat (length cmd) = nstr" by (simp add: ss(2))
  then have "buf = encode_req cmd"
    using read_u32_SomeD [OF r] ss e by (simp add: encode_req_def)
  with n ss show "length cmd \<le> kmax \<and> list_all fits_u32 cmd \<and> buf = encode_req cmd" by simp
next
  assume a: "length cmd \<le> kmax \<and> list_all fits_u32 cmd \<and> buf = encode_req cmd"
  then have len: "length cmd < 2 ^ 32" using kmax by simp
  have "parse_req_loop (length cmd) (concat (map encode_str cmd)) [] = Some (cmd, [])"
    using parse_req_loop_encoded [of cmd "[]" "[]"] a by simp
  then show "parse_req_lim kmax buf [] = Some cmd"
    using a by (simp add: parse_req_lim_def encode_req_def unat_of_nat_u32 [OF len])
qed

lemma parse_req_nstr0: "parse_req (encode_req []) [] = Some []"
  by (simp add: parse_req_def parse_req_lim_def encode_req_def parse_req_loop.simps)

section \<open>Proofs: the dispatcher of the basic key-value store\<close>

lemma str_get [simp]: "str ''get'' = [103, 101, 116]"
  by (simp add: str_def)

lemma str_set [simp]: "str ''set'' = [115, 101, 116]"
  by (simp add: str_def)

lemma str_del [simp]: "str ''del'' = [100, 101, 108]"
  by (simp add: str_def)

lemma kv_run_snoc:
  "kv_run (cs @ [c]) g = snd (kv_do_request (argv c) Response0 (kv_run cs g))"
  by (induction cs arbitrary: g) simp_all

lemma kv_step_lookup:
  "snd (kv_do_request (argv c) Response0 g) k
     = (case c of Set k' v \<Rightarrow> if k' = k then Some v else g k
                | Del k' \<Rightarrow> if k' = k then None else g k
                | Get k' \<Rightarrow> g k)"
  by (cases c) (auto simp: kv_do_request_def split: option.splits)

lemma kv_run_lookup: "kv_run history Map.empty k = last_set k history"
proof (induction history rule: rev_induct)
  case Nil
  show ?case by (simp add: last_set_def)
next
  case (snoc c cs)
  then show ?case
    by (simp add: kv_run_snoc kv_step_lookup last_set_def split: kv_cmd.splits)
qed

text \<open>
  C1. After any sequence of set/get/del commands run by the dispatcher from the empty
  store, \<open>get k\<close> answers with status OK and the value of the most recent \<open>set k v\<close> not
  followed by a \<open>del k\<close>, and with the missing-key status and no data when there is none;
  the store is left as it was. (Dispatcher of the basic key-value store.)
\<close>

theorem kv_get_returns_last_set:
  "kv_do_request (argv (Get k)) Response0 (kv_run history Map.empty)
     = (case last_set k history of
          Some v \<Rightarrow> (\<lparr>status = kv_RES_OK, data = v\<rparr>, kv_run history Map.empty)
        | None \<Rightarrow> (\<lparr>status = kv_RES_NX, data = []\<rparr>, kv_run history Map.empty))"
  using kv_run_lookup [of history k]
  by (simp add: kv_do_request_def Response0_def kv_RES_OK_def split: option.splits)

section \<open>Proofs: the hash map keeps its invariant\<close>

lemma in_bucket_in_concat: "i < length xs \<Longrightarrow> n \<in> set (xs ! i) \<Longrightarrow> n \<in> set (concat xs)"
  using nth_mem by fastforce

lemma tab_ok_cong:
  assumes "\<And>n. n \<in> set (nodes_of t) \<Longrightarrow> hc n = hc' n"
  shows "tab_ok hc t = tab_ok hc' t"
proof -
  have "hc n = hc' n" if "i < length (tab t)" "n \<in> set (tab t ! i)" for i n
    using assms in_bucket_in_concat [OF that] by (simp add: nodes_of_def)
  then show ?thesis unfolding tab_ok_def by auto
qed

lemma bucket_in_range:
  assumes "tab t \<noteq> []" "length (tab t) = unat (mask t) + 1"
  shows "unat (x AND mask t) < length (tab t)"
proof -
  have "x AND mask t \<le> mask t" by (rule word_and_le1)
  then have "unat (x AND mask t) \<le> unat (mask t)" by (simp add: word_le_nat_alt)
  with assms show ?thesis by simp
qed

lemma set_concat_update_cons:
  "i < length xs \<Longrightarrow> set (concat (xs[i := y # xs ! i])) = insert y (set (concat xs))"
proof (induction xs arbitrary: i)
  case Nil
  then show ?case by simp
next
  case (Cons x xs)
  then show ?case by (cases i) auto
qed

lemma length_concat_update_cons:
  "i < length xs \<Longrightarrow> length (concat (xs[i := y # xs ! i])) = Suc (length (concat xs))"
proof (induction xs arbitrary: i)
  case Nil
  then show ?case by simp
next
  case (Cons x xs)
  then show ?case by (cases i) auto
qed

lemma tab_ok_h_init:
  assumes "0 < n" "n \<le> 2 ^ 64"
  shows "tab_ok hc (h_init n)" "tab (h_init n) \<noteq> []" "nodes_of (h_init n) = []"
    "length (tab (h_init n)) = n"
proof -
  from assms(1) obtain k where k: "n = Suc k" by (cases n) simp_all
  have "(of_nat n :: 64 word) - 1 = of_nat k"
    by (simp add: k)
  moreover have "unat (of_nat k :: 64 word) = k"
    using assms(2) by (simp add: unat_of_nat k)
  ultimately have "unat (of_nat n - 1 :: 64 word) + 1 = n"
    by (simp add: k)
  then show "tab_ok hc (h_init n)"
    by (simp add: tab_ok_def h_init_def nodes_of_def)
  show "tab (h_init n) \<noteq> []" using assms(1) by (simp add: h_init_def)
  show "nodes_of (h_init n) = []" by (simp add: h_init_def nodes_of_def)
  show "length (tab (h_init n)) = n" by (simp add: h_init_def)
qed

lemma tab_okD:
  assumes "tab_ok hc t"
  shows "tab t \<noteq> [] \<Longrightarrow> length (tab t) = unat (mask t) + 1"
    and "i < length (tab t) \<Longrightarrow> x \<in> set (tab t ! i) \<Longrightarrow> unat (hc x AND mask t) = i"
    and "size_h t = length (nodes_of t)"
  using assms unfolding tab_ok_def by blast+

lemma tab_okI:
  assumes "tab t \<noteq> [] \<Longrightarrow> length (tab t) = unat (mask t) + 1"
    and "\<And>i x. i < length (tab t) \<Longrightarrow> x \<in> set (tab t ! i) \<Longrightarrow> unat (hc x AND mask t) = i"
    and "size_h t = length (nodes_of t)"
  shows "tab_ok hc t"
  using assms unfolding tab_ok_def by blast

lemma h_insert_sel:
  "tab (h_insert hc t n) = (tab t)[unat (hc n AND mask t) := n # tab t ! unat (hc n AND mask t)]"
  "mask (h_insert hc t n) = mask t"
  "size_h (h_insert hc t n) = Suc (size_h t)"
  by (simp_all add: h_insert_def Let_def)

lemma h_insert_ok:
  assumes "tab_ok hc t" "tab t \<noteq> []"
  shows "tab_ok hc (h_insert hc t n)" "set (nodes_of (h_insert hc t n)) = insert n (set (nodes_of t))"
    "length (nodes_of (h_insert hc t n)) = Suc (length (nodes_of t))"
    "tab (h_insert hc t n) \<noteq> []"
    "length (tab (h_insert hc t n)) = length (tab t)"
proof -
  define pos where "pos = unat (hc n AND mask t)"
  have len: "length (tab t) = unat (mask t) + 1" by (rule tab_okD(1) [OF assms])
  have pos: "pos < length (tab t)" unfolding pos_def by (rule bucket_in_range [OF assms(2) len])
  have tb: "tab (h_insert hc t n) = (tab t)[pos := n # tab t ! pos]"
    unfolding pos_def by (rule h_insert_sel)
  show s: "set (nodes_of (h_insert hc t n)) = insert n (set (nodes_of t))"
    unfolding nodes_of_def tb by (rule set_concat_update_cons [OF pos])
  show l: "length (nodes_of (h_insert hc t n)) = Suc (length (nodes_of t))"
    unfolding nodes_of_def tb by (rule length_concat_update_cons [OF pos])
  show ne: "tab (h_insert hc t n) \<noteq> []" using assms(2) unfolding tb by simp
  show ln: "length (tab (h_insert hc t n)) = length (tab t)" unfolding tb by simp
  show "tab_ok hc (h_insert hc t n)"
  proof (rule tab_okI)
    show "length (tab (h_insert hc t n)) = unat (mask (h_insert hc t n)) + 1"
      unfolding ln h_insert_sel(2) by (rule len)
  next
    fix i x
    assume i: "i < length (tab (h_insert hc t n))" and x: "x \<in> set (tab (h_insert hc t n) ! i)"
    from i have i': "i < length (tab t)" unfolding ln .
    show "unat (hc x AND mask (h_insert hc t n)) = i"
    proof (cases "i = pos")
      case True
      from x have "x = n \<or> x \<in> set (tab t ! pos)"
        unfolding tb True using pos by simp
      then show ?thesis
      proof
        assume "x = n"
        then show ?thesis unfolding h_insert_sel(2) True pos_def by simp
      next
        assume "x \<in> set (tab t ! pos)"
        then show ?thesis unfolding h_insert_sel(2) True
          by (rule tab_okD(2) [OF assms(1) pos])
      qed
    next
      case False
      from x False have "x \<in> set (tab t ! i)" unfolding tb by simp
      then show ?thesis unfolding h_insert_sel(2)
        by (rule tab_okD(2) [OF assms(1) i'])
    qed
  next
    show "size_h (h_insert hc t n) = length (nodes_of (h_insert hc t n))"
      unfolding h_insert_sel(3) l using tab_okD(3) [OF assms(1)] by simp
  qed
qed

lemma splice_out_remove1: "splice_out n xs = remove1 n xs"
  by (induction xs) auto

lemma concat_update_remove1:
  "i < length xs \<Longrightarrow> n \<in> set (xs ! i) \<Longrightarrow> distinct (concat xs)
     \<Longrightarrow> concat (xs[i := remove1 n (xs ! i)]) = remove1 n (concat xs)"
proof (induction xs arbitrary: i)
  case Nil
  then show ?case by simp
next
  case (Cons x xs)
  show ?case
  proof (cases i)
    case 0
    with Cons.prems show ?thesis by (simp add: remove1_append)
  next
    case (Suc j)
    with Cons.prems have j: "j < length xs" "n \<in> set (xs ! j)" "distinct (concat xs)"
      by simp_all
    from j(1,2) have "n \<in> set (concat xs)" by (rule in_bucket_in_concat)
    with Cons.prems(3) have "n \<notin> set x" by auto
    with Cons.IH [OF j] Suc show ?thesis by (simp add: remove1_append)
  qed
qed

lemma set_concat_update_nil:
  "i < length xs \<Longrightarrow> set (concat xs) = set (xs ! i) \<union> set (concat (xs[i := []]))"
proof (induction xs arbitrary: i)
  case Nil
  then show ?case by simp
next
  case (Cons x xs)
  then show ?case by (cases i) auto
qed

lemma length_concat_update_nil:
  "i < length xs \<Longrightarrow> length (concat xs) = length (xs ! i) + length (concat (xs[i := []]))"
proof (induction xs arbitrary: i)
  case Nil
  then show ?case by simp
next
  case (Cons x xs)
  then show ?case by (cases i) auto
qed

lemma distinct_same_set_length:
  assumes "distinct xs" "set ys = set xs" "length ys = length xs"
  shows "distinct ys"
  using assms by (metis card_distinct distinct_card)

lemma node_in_bucket:
  assumes "tab_ok hc t" "n \<in> set (nodes_of t)"
  shows "unat (hc n AND mask t) < length (tab t)" "n \<in> set (tab t ! unat (hc n AND mask t))"
proof -
  from assms(2) obtain b where b: "b \<in> set (tab t)" "n \<in> set b"
    unfolding nodes_of_def by auto
  from b(1) obtain i where i: "i < length (tab t)" "tab t ! i = b"
    by (auto simp: in_set_conv_nth)
  from i b(2) have ni: "n \<in> set (tab t ! i)" by simp
  have "unat (hc n AND mask t) = i" by (rule tab_okD(2) [OF assms(1) i(1) ni])
  with i(1) ni show "unat (hc n AND mask t) < length (tab t)"
    "n \<in> set (tab t ! unat (hc n AND mask t))" by simp_all
qed

lemma h_detach_sel:
  "tab (h_detach hc t n)
     = (tab t)[unat (hc n AND mask t) := remove1 n (tab t ! unat (hc n AND mask t))]"
  "mask (h_detach hc t n) = mask t"
  "size_h (h_detach hc t n) = size_h t - 1"
  by (simp_all add: h_detach_def Let_def splice_out_remove1)

lemma h_detach_ok:
  assumes "tab_ok hc t" "n \<in> set (nodes_of t)" "distinct (nodes_of t)"
  shows "nodes_of (h_detach hc t n) = remove1 n (nodes_of t)"
    "tab_ok hc (h_detach hc t n)"
    "length (tab (h_detach hc t n)) = length (tab t)"
proof -
  define pos where "pos = unat (hc n AND mask t)"
  have pos: "pos < length (tab t)" "n \<in> set (tab t ! pos)"
    unfolding pos_def by (rule node_in_bucket [OF assms(1,2)])+
  have tb: "tab (h_detach hc t n) = (tab t)[pos := remove1 n (tab t ! pos)]"
    unfolding pos_def by (rule h_detach_sel)
  show nd: "nodes_of (h_detach hc t n) = remove1 n (nodes_of t)"
    unfolding nodes_of_def tb
    by (rule concat_update_remove1 [OF pos assms(3) [unfolded nodes_of_def]])
  show ln: "length (tab (h_detach hc t n)) = length (tab t)" unfolding tb by simp
  from pos(1) have ne: "tab t \<noteq> []" by auto
  show "tab_ok hc (h_detach hc t n)"
  proof (rule tab_okI)
    show "length (tab (h_detach hc t n)) = unat (mask (h_detach hc t n)) + 1"
      unfolding ln h_detach_sel(2) by (rule tab_okD(1) [OF assms(1) ne])
  next
    fix i x
    assume i: "i < length (tab (h_detach hc t n))" and x: "x \<in> set (tab (h_detach hc t n) ! i)"
    from i have i': "i < length (tab t)" unfolding ln .
    have "x \<in> set (tab t ! i)"
    proof (cases "i = pos")
      case True
      from x have "x \<in> set (remove1 n (tab t ! pos))" unfolding tb True using pos(1) by simp
      then show ?thesis unfolding True using set_remove1_subset [of n "tab t ! pos"] by blast
    next
      case False
      with x show ?thesis unfolding tb by simp
    qed
    then show "unat (hc x AND mask (h_detach hc t n)) = i" unfolding h_detach_sel(2)
      by (rule tab_okD(2) [OF assms(1) i'])
  next
    show "size_h (h_detach hc t n) = length (nodes_of (h_detach hc t n))"
      unfolding h_detach_sel(3) nd using tab_okD(3) [OF assms(1)] assms(2)
      by (simp add: length_remove1)
  qed
qed

lemma h_lookup_found:
  assumes "tab_ok hc t" "h_lookup hc t k eq \<noteq> nullptr"
  shows "h_lookup hc t k eq \<in> set (nodes_of t)" "hc (h_lookup hc t k eq) = hcode k"
    "eq (h_lookup hc t k eq)"
proof -
  define pos where "pos = unat (hcode k AND mask t)"
  from assms(2) have ne: "tab t \<noteq> []" by (auto simp: h_lookup_def)
  have pos: "pos < length (tab t)" unfolding pos_def
    by (rule bucket_in_range [OF ne tab_okD(1) [OF assms(1) ne]])
  from assms(2) ne obtain r where r: "find (\<lambda>n. hc n = hcode k \<and> eq n) (tab t ! pos) = Some r"
    unfolding pos_def by (auto simp: h_lookup_def split: option.splits)
  with ne have res: "h_lookup hc t k eq = r" by (simp add: h_lookup_def pos_def)
  from r have "r \<in> set (tab t ! pos)" "hc r = hcode k" "eq r"
    by (auto simp: find_Some_iff)
  then show "h_lookup hc t k eq \<in> set (nodes_of t)" "hc (h_lookup hc t k eq) = hcode k"
    "eq (h_lookup hc t k eq)"
    unfolding res nodes_of_def using in_bucket_in_concat [OF pos] by simp_all
qed

lemma h_lookup_none:
  assumes "tab_ok hc t" "h_lookup hc t k eq = nullptr" "nullptr \<notin> set (nodes_of t)"
    "n \<in> set (nodes_of t)"
  shows "\<not> (hc n = hcode k \<and> eq n)"
proof
  assume m: "hc n = hcode k \<and> eq n"
  define pos where "pos = unat (hcode k AND mask t)"
  have pos: "pos < length (tab t)" "n \<in> set (tab t ! pos)"
    using node_in_bucket [OF assms(1,4)] m unfolding pos_def by simp_all
  then have ne: "tab t \<noteq> []" by auto
  from pos(2) m have "find (\<lambda>n. hc n = hcode k \<and> eq n) (tab t ! pos) \<noteq> None"
    by (auto simp: find_None_iff)
  then obtain r where r: "find (\<lambda>n. hc n = hcode k \<and> eq n) (tab t ! pos) = Some r" by auto
  with ne have res: "h_lookup hc t k eq = r" by (simp add: h_lookup_def pos_def)
  from r have "r \<in> set (tab t ! pos)" by (auto simp: find_Some_iff)
  then have "r \<in> set (nodes_of t)" unfolding nodes_of_def by (rule in_bucket_in_concat [OF pos(1)])
  with assms(3) have "r \<noteq> nullptr" by auto
  with res assms(2) show False by simp
qed

lemma fold_h_insert_ok:
  assumes "tab_ok hc t" "tab t \<noteq> []"
  shows "tab_ok hc (fold (\<lambda>x t. h_insert hc t x) chain t)
    \<and> set (nodes_of (fold (\<lambda>x t. h_insert hc t x) chain t)) = set chain \<union> set (nodes_of t)
    \<and> length (nodes_of (fold (\<lambda>x t. h_insert hc t x) chain t))
        = length chain + length (nodes_of t)
    \<and> tab (fold (\<lambda>x t. h_insert hc t x) chain t) \<noteq> []
    \<and> length (tab (fold (\<lambda>x t. h_insert hc t x) chain t)) = length (tab t)"
  using assms
proof (induction chain arbitrary: t)
  case Nil
  then show ?case by simp
next
  case (Cons x chain)
  note hi = h_insert_ok [OF Cons.prems, of x]
  from Cons.IH [OF hi(1) hi(4)] show ?case
    unfolding fold_simps hi(2) hi(3) hi(5) by simp
qed

lemma hm_okD:
  assumes "hm_ok hc m"
  shows "tab_ok hc (newer m)" "tab_ok hc (older m)" "distinct (hm_nodes m)"
    "tab (older m) \<noteq> [] \<Longrightarrow> tab (newer m) \<noteq> []"
  using assms unfolding hm_ok_def by blast+

lemma hm_okI:
  assumes "tab_ok hc (newer m)" "tab_ok hc (older m)" "distinct (hm_nodes m)"
    "tab (older m) \<noteq> [] \<Longrightarrow> tab (newer m) \<noteq> []"
  shows "hm_ok hc m"
  using assms unfolding hm_ok_def by blast

lemma migrate_bucket_ok:
  assumes ok: "hm_ok hc m" and p: "p < length (tab (older m))"
    and nw: "newer m' = fold (\<lambda>x t. h_insert hc t x) (tab (older m) ! p) (newer m)"
    and od: "tab (older m') = (tab (older m))[p := []]" "mask (older m') = mask (older m)"
      "size_h (older m') = size_h (older m) - length (tab (older m) ! p)"
  shows "hm_ok hc m'" "set (hm_nodes m') = set (hm_nodes m)"
    "length (tab (newer m')) = length (tab (newer m))"
proof -
  from p have one: "tab (older m) \<noteq> []" by auto
  then have nne: "tab (newer m) \<noteq> []" by (rule hm_okD(4) [OF ok])
  note f = fold_h_insert_ok [OF hm_okD(1) [OF ok] nne, of "tab (older m) ! p", folded nw]
  note oo = hm_okD(2) [OF ok]
  have so: "set (nodes_of (older m)) = set (tab (older m) ! p) \<union> set (nodes_of (older m'))"
    unfolding nodes_of_def od(1) by (rule set_concat_update_nil [OF p])
  have lo: "length (nodes_of (older m))
      = length (tab (older m) ! p) + length (nodes_of (older m'))"
    unfolding nodes_of_def od(1) by (rule length_concat_update_nil [OF p])
  show st: "set (hm_nodes m') = set (hm_nodes m)"
    using f so by (auto simp: hm_nodes_def)
  have ln: "length (hm_nodes m') = length (hm_nodes m)"
    using f lo by (simp add: hm_nodes_def)
  show "length (tab (newer m')) = length (tab (newer m))" using f by simp
  have tod: "tab_ok hc (older m')"
  proof (rule tab_okI)
    show "length (tab (older m')) = unat (mask (older m')) + 1"
      unfolding od using tab_okD(1) [OF oo one] by simp
  next
    fix i x
    assume i: "i < length (tab (older m'))" and x: "x \<in> set (tab (older m') ! i)"
    from i have i': "i < length (tab (older m))" unfolding od by simp
    from x i' have "i \<noteq> p" unfolding od by (cases "i = p") auto
    with x have "x \<in> set (tab (older m) ! i)" unfolding od by simp
    then show "unat (hc x AND mask (older m')) = i" unfolding od
      by (rule tab_okD(2) [OF oo i'])
  next
    show "size_h (older m') = length (nodes_of (older m'))"
      unfolding od(3) using tab_okD(3) [OF oo] lo by simp
  qed
  show "hm_ok hc m'"
  proof (rule hm_okI)
    show "tab_ok hc (newer m')" using f by simp
    show "tab_ok hc (older m')" by (rule tod)
    show "distinct (hm_nodes m')"
      by (rule distinct_same_set_length [OF hm_okD(3) [OF ok] st ln])
    show "tab (newer m') \<noteq> []" using f by simp
  qed
qed

lemma hm_help_loop_ok:
  "hm_ok hc m \<Longrightarrow>
     hm_ok hc (hm_help_loop hc w m)
     \<and> set (hm_nodes (hm_help_loop hc w m)) = set (hm_nodes m)
     \<and> length (tab (newer (hm_help_loop hc w m))) = length (tab (newer m))"
proof (induction hc w m rule: hm_help_loop.induct)
  case (1 hc nwork m)
  show ?case
  proof (cases "nwork < k_rehashing_work \<and> size_h (older m) > 0
                  \<and> migrate_pos m < length (tab (older m))")
    case False
    then have "hm_help_loop hc nwork m = m"
      by (subst hm_help_loop.simps) (simp only: if_False)
    then show ?thesis using "1.prems" by simp
  next
    case c: True
    show ?thesis
    proof (cases "tab (older m) ! migrate_pos m")
      case Nil
      define m' where "m' = m\<lparr>migrate_pos := migrate_pos m + 1\<rparr>"
      have eq: "hm_help_loop hc nwork m = hm_help_loop hc nwork m'"
        unfolding m'_def using c Nil by (subst hm_help_loop.simps) simp
      have ok: "hm_ok hc m'" using "1.prems" by (simp add: m'_def hm_ok_def hm_nodes_def)
      have same: "hm_nodes m' = hm_nodes m" "tab (newer m') = tab (newer m)"
        by (simp_all add: m'_def hm_nodes_def)
      from "1.IH"(1) [OF c Nil, folded m'_def, OF ok] show ?thesis
        unfolding eq same by simp
    next
      case (Cons n chain)
      define m' where "m' = m\<lparr>newer := fold (\<lambda>x t. h_insert hc t x) (n # chain) (newer m),
                   older := (older m)\<lparr>tab := (tab (older m))[migrate_pos m := []],
                                       size_h := size_h (older m) - length (n # chain)\<rparr>,
                   migrate_pos := migrate_pos m + 1\<rparr>"
      have eq: "hm_help_loop hc nwork m = hm_help_loop hc (nwork + 1) m'"
        unfolding m'_def using c Cons by (subst hm_help_loop.simps) simp
      from c have p: "migrate_pos m < length (tab (older m))" by simp
      have mb: "hm_ok hc m'" "set (hm_nodes m') = set (hm_nodes m)"
        "length (tab (newer m')) = length (tab (newer m))"
        by (rule migrate_bucket_ok [OF "1.prems" p]; simp add: m'_def Cons)+
      from "1.IH"(2) [OF c Cons, folded m'_def, OF mb(1)] show ?thesis
        unfolding eq mb(2,3) by simp
    qed
  qed
qed

lemma tab_ok_HTab0: "tab_ok hc HTab0" "nodes_of HTab0 = []" "tab HTab0 = []"
  by (simp_all add: tab_ok_def HTab0_def nodes_of_def)

lemma hm_help_rehashing_ok:
  assumes "hm_ok hc m"
  shows "hm_ok hc (hm_help_rehashing hc m)"
    "set (hm_nodes (hm_help_rehashing hc m)) = set (hm_nodes m)"
    "length (tab (newer (hm_help_rehashing hc m))) = length (tab (newer m))"
proof -
  define m1 where "m1 = hm_help_loop hc 0 m"
  from hm_help_loop_ok [OF assms, of 0] have m1: "hm_ok hc m1"
    "set (hm_nodes m1) = set (hm_nodes m)" "length (tab (newer m1)) = length (tab (newer m))"
    unfolding m1_def by simp_all
  have "hm_ok hc (hm_help_rehashing hc m)
    \<and> set (hm_nodes (hm_help_rehashing hc m)) = set (hm_nodes m)
    \<and> length (tab (newer (hm_help_rehashing hc m))) = length (tab (newer m))"
  proof (cases "size_h (older m1) = 0 \<and> tab (older m1) \<noteq> []")
    case True
    then have r: "hm_help_rehashing hc m = m1\<lparr>older := HTab0\<rparr>"
      by (simp add: hm_help_rehashing_def m1_def [symmetric] Let_def)
    from True tab_okD(3) [OF hm_okD(2) [OF m1(1)]] have e: "nodes_of (older m1) = []" by simp
    have n: "hm_nodes (m1\<lparr>older := HTab0\<rparr>) = hm_nodes m1"
      by (simp add: hm_nodes_def e tab_ok_HTab0)
    have "hm_ok hc (m1\<lparr>older := HTab0\<rparr>)"
      by (rule hm_okI) (simp_all add: n tab_ok_HTab0 hm_okD [OF m1(1)])
    then show ?thesis unfolding r n using m1 by simp
  next
    case False
    then have r: "hm_help_rehashing hc m = m1"
      unfolding hm_help_rehashing_def m1_def [symmetric] Let_def by (simp only: if_False)
    show ?thesis unfolding r using m1 by simp
  qed
  then show "hm_ok hc (hm_help_rehashing hc m)"
    "set (hm_nodes (hm_help_rehashing hc m)) = set (hm_nodes m)"
    "length (tab (newer (hm_help_rehashing hc m))) = length (tab (newer m))"
    by simp_all
qed

lemma hm_lookup_ok:
  assumes "hm_ok hc m" "nullptr \<notin> set (hm_nodes m)" "hm_lookup hc m k eq = (m', r)"
  shows "hm_ok hc m'" "set (hm_nodes m') = set (hm_nodes m)"
    "length (tab (newer m')) = length (tab (newer m))"
    "r \<noteq> nullptr \<Longrightarrow> r \<in> set (hm_nodes m) \<and> hc r = hcode k \<and> eq r"
    "r = nullptr \<Longrightarrow> n \<in> set (hm_nodes m) \<Longrightarrow> \<not> (hc n = hcode k \<and> eq n)"
proof -
  note h = hm_help_rehashing_ok [OF assms(1)]
  from assms(3) have m': "m' = hm_help_rehashing hc m"
    and r: "r = (if h_lookup hc (newer m') k eq \<noteq> nullptr then h_lookup hc (newer m') k eq
                 else h_lookup hc (older m') k eq)"
    by (auto simp: hm_lookup_def Let_def)
  show ok: "hm_ok hc m'" and st: "set (hm_nodes m') = set (hm_nodes m)"
    and "length (tab (newer m')) = length (tab (newer m))"
    unfolding m' by (rule h)+
  note tn = hm_okD(1) [OF ok] and tod = hm_okD(2) [OF ok]
  have sp: "set (hm_nodes m) = set (nodes_of (newer m')) \<union> set (nodes_of (older m'))"
    unfolding st [symmetric] by (simp add: hm_nodes_def)
  show "r \<in> set (hm_nodes m) \<and> hc r = hcode k \<and> eq r" if "r \<noteq> nullptr"
  proof (cases "h_lookup hc (newer m') k eq \<noteq> nullptr")
    case True
    with r have "r = h_lookup hc (newer m') k eq" by simp
    with h_lookup_found [OF tn True] show ?thesis unfolding sp by simp
  next
    case False
    with r have e: "r = h_lookup hc (older m') k eq" by simp
    with that have "h_lookup hc (older m') k eq \<noteq> nullptr" by simp
    from h_lookup_found [OF tod this] show ?thesis unfolding sp e by simp
  qed
  show "\<not> (hc n = hcode k \<and> eq n)" if "r = nullptr" "n \<in> set (hm_nodes m)"
  proof -
    from that(1) r have z: "h_lookup hc (newer m') k eq = nullptr"
      "h_lookup hc (older m') k eq = nullptr" by (auto split: if_splits)
    from assms(2) sp have nn: "nullptr \<notin> set (nodes_of (newer m'))"
      "nullptr \<notin> set (nodes_of (older m'))" by auto
    from that(2) sp have "n \<in> set (nodes_of (newer m')) \<or> n \<in> set (nodes_of (older m'))"
      by auto
    then show ?thesis
    proof
      assume "n \<in> set (nodes_of (newer m'))"
      then show ?thesis by (rule h_lookup_none [OF tn z(1) nn(1)])
    next
      assume "n \<in> set (nodes_of (older m'))"
      then show ?thesis by (rule h_lookup_none [OF tod z(2) nn(2)])
    qed
  qed
qed

lemma tab_ne_length: "length xs = length ys \<Longrightarrow> xs \<noteq> [] \<Longrightarrow> ys \<noteq> []"
  by auto

lemma hm_delete_ok:
  assumes "hm_ok hc m" "nullptr \<notin> set (hm_nodes m)" "hm_delete hc m k eq = (m', r)"
  shows "hm_ok hc m'" "length (tab (newer m')) = length (tab (newer m))"
    "r \<noteq> nullptr \<Longrightarrow> r \<in> set (hm_nodes m) \<and> hc r = hcode k \<and> eq r
        \<and> set (hm_nodes m') = set (hm_nodes m) - {r}"
    "r = nullptr \<Longrightarrow> set (hm_nodes m') = set (hm_nodes m)
        \<and> (\<forall>n \<in> set (hm_nodes m). \<not> (hc n = hcode k \<and> eq n))"
proof -
  let ?m1 = "hm_help_rehashing hc m"
  let ?a = "h_lookup hc (newer ?m1) k eq"
  let ?b = "h_lookup hc (older ?m1) k eq"
  note h = hm_help_rehashing_ok [OF assms(1)]
  note tn = hm_okD(1) [OF h(1)] and tod = hm_okD(2) [OF h(1)]
  have sp: "set (hm_nodes m) = set (nodes_of (newer ?m1)) \<union> set (nodes_of (older ?m1))"
    unfolding h(2) [symmetric] by (simp add: hm_nodes_def)
  from hm_okD(3) [OF h(1)] have d: "distinct (nodes_of (newer ?m1))"
    "distinct (nodes_of (older ?m1))"
    "set (nodes_of (newer ?m1)) \<inter> set (nodes_of (older ?m1)) = {}"
    by (simp_all add: hm_nodes_def)
  consider (A) "?a \<noteq> nullptr" | (B) "?a = nullptr" "?b \<noteq> nullptr"
    | (C) "?a = nullptr" "?b = nullptr" by blast
  then have "hm_ok hc m' \<and> length (tab (newer m')) = length (tab (newer m))
    \<and> (r \<noteq> nullptr \<longrightarrow> r \<in> set (hm_nodes m) \<and> hc r = hcode k \<and> eq r
        \<and> set (hm_nodes m') = set (hm_nodes m) - {r})
    \<and> (r = nullptr \<longrightarrow> set (hm_nodes m') = set (hm_nodes m)
        \<and> (\<forall>n \<in> set (hm_nodes m). \<not> (hc n = hcode k \<and> eq n)))"
  proof cases
    case A
    with assms(3) have m': "m' = ?m1\<lparr>newer := h_detach hc (newer ?m1) ?a\<rparr>" and r: "r = ?a"
      by (auto simp: hm_delete_def Let_def)
    note f = h_lookup_found [OF tn A]
    note dt = h_detach_ok [OF tn f(1) d(1)]
    have nw: "newer m' = h_detach hc (newer ?m1) ?a" and od: "older m' = older ?m1"
      by (simp_all add: m')
    from f(1) d(3) have nb: "?a \<notin> set (nodes_of (older ?m1))" by auto
    have "set (hm_nodes m')
        = (set (nodes_of (newer ?m1)) \<union> set (nodes_of (older ?m1))) - {?a}"
      unfolding hm_nodes_def nw od dt(1) using nb d(1) by auto
    then have st: "set (hm_nodes m') = set (hm_nodes m) - {?a}" unfolding sp .
    have ds: "distinct (hm_nodes m')"
      unfolding hm_nodes_def nw od dt(1) using d set_remove1_subset [of ?a "nodes_of (newer ?m1)"]
      by auto
    have ln: "length (tab (newer m')) = length (tab (newer ?m1))" unfolding nw by (rule dt(3))
    have "hm_ok hc m'"
    proof (rule hm_okI)
      show "tab_ok hc (newer m')" unfolding nw by (rule dt(2))
      show "tab_ok hc (older m')" unfolding od by (rule tod)
      show "distinct (hm_nodes m')" by (rule ds)
      show "tab (newer m') \<noteq> []" if "tab (older m') \<noteq> []"
        using hm_okD(4) [OF h(1)] that ln unfolding od by auto
    qed
    with f st ln h(3) sp A show ?thesis unfolding r by simp
  next
    case B
    with assms(3) have m': "m' = ?m1\<lparr>older := h_detach hc (older ?m1) ?b\<rparr>" and r: "r = ?b"
      by (auto simp: hm_delete_def Let_def)
    note f = h_lookup_found [OF tod B(2)]
    note dt = h_detach_ok [OF tod f(1) d(2)]
    have nw: "newer m' = newer ?m1" and od: "older m' = h_detach hc (older ?m1) ?b"
      by (simp_all add: m')
    from f(1) d(3) have nb: "?b \<notin> set (nodes_of (newer ?m1))" by auto
    have "set (hm_nodes m')
        = (set (nodes_of (newer ?m1)) \<union> set (nodes_of (older ?m1))) - {?b}"
      unfolding hm_nodes_def nw od dt(1) using nb d(2) by auto
    then have st: "set (hm_nodes m') = set (hm_nodes m) - {?b}" unfolding sp .
    have ds: "distinct (hm_nodes m')"
      unfolding hm_nodes_def nw od dt(1) using d set_remove1_subset [of ?b "nodes_of (older ?m1)"]
      by auto
    have ln: "length (tab (newer m')) = length (tab (newer ?m1))" unfolding nw by simp
    have "hm_ok hc m'"
    proof (rule hm_okI)
      show "tab_ok hc (newer m')" unfolding nw by (rule tn)
      show "tab_ok hc (older m')" unfolding od by (rule dt(2))
      show "distinct (hm_nodes m')" by (rule ds)
      show "tab (newer m') \<noteq> []" if "tab (older m') \<noteq> []"
        unfolding nw by (rule hm_okD(4) [OF h(1) tab_ne_length [OF dt(3) that [unfolded od]]])
    qed
    with f st ln h(3) sp B(2) show ?thesis unfolding r by simp
  next
    case C
    with assms(3) have m': "m' = ?m1" and r: "r = nullptr"
      by (auto simp: hm_delete_def Let_def)
    from assms(2) sp have nn: "nullptr \<notin> set (nodes_of (newer ?m1))"
      "nullptr \<notin> set (nodes_of (older ?m1))" by auto
    have "\<not> (hc x = hcode k \<and> eq x)" if "x \<in> set (hm_nodes m)" for x
    proof -
      from that sp have "x \<in> set (nodes_of (newer ?m1)) \<or> x \<in> set (nodes_of (older ?m1))"
        by auto
      then show ?thesis
      proof
        assume "x \<in> set (nodes_of (newer ?m1))"
        then show ?thesis by (rule h_lookup_none [OF tn C(1) nn(1)])
      next
        assume "x \<in> set (nodes_of (older ?m1))"
        then show ?thesis by (rule h_lookup_none [OF tod C(2) nn(2)])
      qed
    qed
    with h show ?thesis unfolding m' r by simp
  qed
  then show "hm_ok hc m'" "length (tab (newer m')) = length (tab (newer m))"
    "r \<noteq> nullptr \<Longrightarrow> r \<in> set (hm_nodes m) \<and> hc r = hcode k \<and> eq r
        \<and> set (hm_nodes m') = set (hm_nodes m) - {r}"
    "r = nullptr \<Longrightarrow> set (hm_nodes m') = set (hm_nodes m)
        \<and> (\<forall>n \<in> set (hm_nodes m). \<not> (hc n = hcode k \<and> eq n))"
    by blast+
qed

lemma hm_insert_ok:
  assumes ok: "hm_ok hc m" and fresh: "n \<notin> set (hm_nodes m)"
    and cap: "length (tab (newer m)) \<le> 2 ^ 63"
  shows "hm_ok hc (hm_insert hc m n)"
    "set (hm_nodes (hm_insert hc m n)) = insert n (set (hm_nodes m))"
    "length (tab (newer (hm_insert hc m n)))
       \<le> max 4 (max (length (tab (newer m))) (Suc (length (hm_nodes m))))"
proof -
  define m1 where "m1 = (if tab (newer m) = [] then m\<lparr>newer := h_init 4\<rparr> else m)"
  define m2 where "m2 = m1\<lparr>newer := h_insert hc (newer m1) n\<rparr>"
  define m3 where "m3 = (if tab (older m2) = []
                    \<and> size_h (newer m2) > k_max_load_factor * (unat (mask (newer m2)) + 1)
                then hm_trigger_rehashing m2 else m2)"
  have eq: "hm_insert hc m n = hm_help_rehashing hc m3"
    by (simp add: hm_insert_def m1_def m2_def m3_def Let_def)
  have m1: "hm_ok hc m1 \<and> hm_nodes m1 = hm_nodes m \<and> tab (newer m1) \<noteq> []
     \<and> length (tab (newer m1)) \<le> max 4 (length (tab (newer m)))"
  proof (cases "tab (newer m) = []")
    case True
    with hm_okD(4) [OF ok] have o: "tab (older m) = []" by blast
    from True have e: "m1 = m\<lparr>newer := h_init 4\<rparr>" by (simp add: m1_def)
    have i: "tab_ok hc (h_init 4)" "tab (h_init 4) \<noteq> []" "nodes_of (h_init 4) = []"
      "length (tab (h_init 4)) = 4"
      by (rule tab_ok_h_init; simp)+
    have n: "hm_nodes m1 = hm_nodes m"
      unfolding e using True i(3) by (simp add: hm_nodes_def nodes_of_def)
    have "hm_ok hc m1"
    proof (rule hm_okI)
      show "tab_ok hc (newer m1)" unfolding e using i(1) by simp
      show "tab_ok hc (older m1)" unfolding e using hm_okD(2) [OF ok] by simp
      show "distinct (hm_nodes m1)" unfolding n by (rule hm_okD(3) [OF ok])
      show "tab (newer m1) \<noteq> []" unfolding e using i(2) by simp
    qed
    with n i(2,4) show ?thesis unfolding e by simp
  next
    case False
    then have e: "m1 = m" by (simp add: m1_def)
    from ok False show ?thesis unfolding e by simp
  qed
  note hi = h_insert_ok [OF hm_okD(1) [OF conjunct1 [OF m1]] conjunct1 [OF conjunct2 [OF conjunct2 [OF m1]]], of n]
  have nw2: "newer m2 = h_insert hc (newer m1) n" and od2: "older m2 = older m1"
    by (simp_all add: m2_def)
  from m1 have n1: "hm_nodes m1 = hm_nodes m" by simp
  have "set (hm_nodes m2) = insert n (set (hm_nodes m1))"
    unfolding hm_nodes_def nw2 od2 using hi(2) by simp
  then have st2: "set (hm_nodes m2) = insert n (set (hm_nodes m))" unfolding n1 .
  have "length (hm_nodes m2) = Suc (length (hm_nodes m1))"
    unfolding hm_nodes_def nw2 od2 using hi(3) by simp
  then have ln2: "length (hm_nodes m2) = Suc (length (hm_nodes m))" unfolding n1 .
  have "distinct (n # hm_nodes m)" using fresh hm_okD(3) [OF ok] by simp
  then have ds2: "distinct (hm_nodes m2)"
    by (rule distinct_same_set_length) (simp_all add: st2 ln2)
  have tl2: "length (tab (newer m2)) = length (tab (newer m1))" "tab (newer m2) \<noteq> []"
    unfolding nw2 by (rule hi)+
  have ok2: "hm_ok hc m2"
  proof (rule hm_okI)
    show "tab_ok hc (newer m2)" unfolding nw2 by (rule hi(1))
    show "tab_ok hc (older m2)" unfolding od2 by (rule hm_okD(2) [OF conjunct1 [OF m1]])
    show "distinct (hm_nodes m2)" by (rule ds2)
    show "tab (newer m2) \<noteq> []" by (rule tl2(2))
  qed
  have m3: "hm_ok hc m3 \<and> set (hm_nodes m3) = insert n (set (hm_nodes m))
     \<and> length (tab (newer m3))
         \<le> max 4 (max (length (tab (newer m))) (Suc (length (hm_nodes m))))"
  proof (cases "tab (older m2) = []
                    \<and> size_h (newer m2) > k_max_load_factor * (unat (mask (newer m2)) + 1)")
    case True
    then have e: "m3 = hm_trigger_rehashing m2" by (simp add: m3_def)
    define L where "L = length (tab (newer m2))"
    have c2: "unat (mask (newer m2)) + 1 = L"
      unfolding L_def using tab_okD(1) [OF hm_okD(1) [OF ok2] tl2(2)] by simp
    have nw3: "newer m3 = h_init (L * 2)" and od3: "older m3 = newer m2"
      unfolding e hm_trigger_rehashing_def c2 [symmetric] by simp_all
    from tl2(2) have Lpos: "0 < L" unfolding L_def by simp
    have "L \<le> 2 ^ 63"
    proof -
      from m1 have a: "L \<le> max 4 (length (tab (newer m)))" unfolding L_def tl2(1) by blast
      have "(4::nat) \<le> 2 ^ 63" by simp
      then have "max 4 (length (tab (newer m))) \<le> 2 ^ 63" using cap by (rule max.boundedI)
      with a show ?thesis by (rule order_trans)
    qed
    then have Lb: "L * 2 \<le> 2 ^ 64" by simp
    from Lpos have Lp2: "0 < L * 2" by simp
    note i = tab_ok_h_init [OF Lp2 Lb]
    from True have "nodes_of (older m2) = []" by (simp add: nodes_of_def)
    then have n3: "set (hm_nodes m3) = set (hm_nodes m2)"
      "length (nodes_of (newer m2)) = length (hm_nodes m2)"
      unfolding hm_nodes_def nw3 od3 i(3) by simp_all
    have ok3: "hm_ok hc m3"
    proof (rule hm_okI)
      show "tab_ok hc (newer m3)" unfolding nw3 by (rule i(1))
      show "tab_ok hc (older m3)" unfolding od3 by (rule hm_okD(1) [OF ok2])
      show "distinct (hm_nodes m3)"
        unfolding hm_nodes_def nw3 od3 i(3) using hm_okD(3) [OF ok2]
        by (simp add: hm_nodes_def)
      show "tab (newer m3) \<noteq> []" unfolding nw3 by (rule i(2))
    qed
    from True have "8 * L < size_h (newer m2)"
      unfolding k_max_load_factor_def c2 by blast
    also have "\<dots> = Suc (length (hm_nodes m))"
      using tab_okD(3) [OF hm_okD(1) [OF ok2]] n3(2) ln2 by simp
    finally have "L * 2 \<le> Suc (length (hm_nodes m))" by simp
    then have "length (tab (newer m3)) \<le> Suc (length (hm_nodes m))"
      unfolding nw3 i(4) .
    with ok3 n3(1) st2 show ?thesis by simp
  next
    case False
    then have e: "m3 = m2" unfolding m3_def by (simp only: if_False)
    from m1 have "length (tab (newer m1)) \<le> max 4 (length (tab (newer m)))" by blast
    then have "length (tab (newer m2))
         \<le> max 4 (max (length (tab (newer m))) (Suc (length (hm_nodes m))))"
      unfolding tl2(1) by linarith
    with ok2 st2 show ?thesis unfolding e by blast
  qed
  note h = hm_help_rehashing_ok [OF conjunct1 [OF m3]]
  show "hm_ok hc (hm_insert hc m n)" unfolding eq by (rule h(1))
  show "set (hm_nodes (hm_insert hc m n)) = insert n (set (hm_nodes m))"
    unfolding eq h(2) using m3 by simp
  show "length (tab (newer (hm_insert hc m n)))
       \<le> max 4 (max (length (tab (newer m))) (Suc (length (hm_nodes m))))"
    unfolding eq h(3) using m3 by simp
qed

section \<open>Proofs: the dispatcher of the event-loop server is a finite map\<close>

lemma unat_of_nat_u64: "n < 2 ^ 64 \<Longrightarrow> unat (of_nat n :: 64 word) = n"
  by (simp add: unat_of_nat)

lemma entry_addr_unat:
  assumes "j < 2 ^ 56"
  shows "unat (entry_addr j) = 4096 + 80 * j"
proof -
  have e: "entry_addr j = of_nat (4096 + 80 * j)"
    by (simp add: entry_addr_def sizeof_Entry_def)
  from assms have "80 * j < 80 * 2 ^ 56" by simp
  also have "(80::nat) * 2 ^ 56 \<le> 2 ^ 64 - 4096" by simp
  finally have "4096 + 80 * j < 2 ^ 64" by simp
  then show ?thesis unfolding e by (rule unat_of_nat_u64)
qed

lemma entry_addr_inj:
  assumes "i < 2 ^ 56" "j < 2 ^ 56" "entry_addr i = entry_addr j"
  shows "i = j"
proof -
  from assms(3) have "unat (entry_addr i) = unat (entry_addr j)" by (rule arg_cong)
  then have "4096 + 80 * i = 4096 + 80 * j"
    unfolding entry_addr_unat [OF assms(1)] entry_addr_unat [OF assms(2)] .
  then show ?thesis by simp
qed

lemma entry_addr_nonnull:
  assumes "j < 2 ^ 56"
  shows "entry_addr j \<noteq> nullptr"
proof
  assume "entry_addr j = nullptr"
  then have "unat (entry_addr j) = 0" by (simp add: nullptr_def)
  with entry_addr_unat [OF assms] show False by simp
qed

lemma entry_addr_Suc: "entry_addr a + sizeof_Entry = entry_addr (Suc a)"
  by (simp add: entry_addr_def sizeof_Entry_def)

lemma eq_probe: "entry_eq (entry_at g x) (probe k) = (key (heap g x) = k)"
  by (simp add: entry_eq_def entry_at_def probe_def container_of_def offsetof_Entry_node_def)

lemma hcode_probe: "hcode (node (probe k)) = str_hash k"
  by (simp add: probe_def)

lemma entry_hcode_eq: "entry_hcode g n = hcode (node (heap g n))"
  by (simp add: entry_hcode_def entry_at_def container_of_def offsetof_Entry_node_def)

lemma db_okD:
  assumes "db_ok a g"
  shows "hm_ok (entry_hcode g) (db g)" "brk g = entry_addr a" "a < 2 ^ 56"
    "set (hm_nodes (db g)) \<subseteq> entry_addr ` {..<a}"
    "n \<in> set (hm_nodes (db g)) \<Longrightarrow> hcode (node (heap g n)) = str_hash (key (heap g n))"
    "n \<in> set (hm_nodes (db g)) \<Longrightarrow> length (val (heap g n)) \<le> k_max_msg"
    "inj_on (\<lambda>n. key (heap g n)) (set (hm_nodes (db g)))"
    "length (tab (newer (db g))) \<le> max 4 a"
  using assms unfolding db_ok_def by blast+

lemma db_okI:
  assumes "hm_ok (entry_hcode g) (db g)" "brk g = entry_addr a" "a < 2 ^ 56"
    "set (hm_nodes (db g)) \<subseteq> entry_addr ` {..<a}"
    "\<And>n. n \<in> set (hm_nodes (db g)) \<Longrightarrow> hcode (node (heap g n)) = str_hash (key (heap g n))"
    "\<And>n. n \<in> set (hm_nodes (db g)) \<Longrightarrow> length (val (heap g n)) \<le> k_max_msg"
    "inj_on (\<lambda>n. key (heap g n)) (set (hm_nodes (db g)))"
    "length (tab (newer (db g))) \<le> max 4 a"
  shows "db_ok a g"
  using assms unfolding db_ok_def by blast

lemma db_nodes:
  assumes "db_ok a g" "n \<in> set (hm_nodes (db g))"
  shows "n \<noteq> nullptr" "n \<noteq> brk g"
proof -
  from db_okD(4) [OF assms(1)] assms(2) obtain j where j: "j < a" "n = entry_addr j" by auto
  note a = db_okD(3) [OF assms(1)]
  from j(1) a have j56: "j < 2 ^ 56" by simp
  show "n \<noteq> nullptr" unfolding j(2) by (rule entry_addr_nonnull [OF j56])
  show "n \<noteq> brk g" unfolding j(2) db_okD(2) [OF assms(1)]
    using entry_addr_inj [OF j56 a] j(1) by auto
qed

lemma db_count:
  assumes "db_ok a g"
  shows "length (hm_nodes (db g)) \<le> a"
proof -
  have "length (hm_nodes (db g)) = card (set (hm_nodes (db g)))"
    by (rule distinct_card [OF hm_okD(3) [OF db_okD(1) [OF assms]], symmetric])
  also have "\<dots> \<le> card (entry_addr ` {..<a})"
    by (rule card_mono [OF _ db_okD(4) [OF assms]]) simp
  also have "\<dots> \<le> card {..<a}" by (rule card_image_le) simp
  finally show ?thesis by simp
qed

lemma hm_ok_cong:
  assumes "\<And>n. n \<in> set (hm_nodes m) \<Longrightarrow> hc n = hc' n" "hm_ok hc m"
  shows "hm_ok hc' m"
proof -
  have a: "tab_ok hc (newer m) = tab_ok hc' (newer m)"
    by (rule tab_ok_cong) (simp add: assms(1) hm_nodes_def)
  have b: "tab_ok hc (older m) = tab_ok hc' (older m)"
    by (rule tab_ok_cong) (simp add: assms(1) hm_nodes_def)
  from assms(2) show ?thesis unfolding hm_ok_def a b .
qed

lemma db_abs_SomeD:
  assumes "db_abs g M" "M k = Some v"
  shows "\<exists>n \<in> set (hm_nodes (db g)). key (heap g n) = k \<and> val (heap g n) = v"
  using assms(1) [unfolded db_abs_def, rule_format, of k] assms(2) by simp

lemma db_abs_NoneD:
  assumes "db_abs g M" "M k = None" "n \<in> set (hm_nodes (db g))"
  shows "key (heap g n) \<noteq> k"
  using assms(1) [unfolded db_abs_def, rule_format, of k] assms(2,3) by simp

lemma db_absI:
  assumes "\<And>k v. M k = Some v
      \<Longrightarrow> \<exists>n \<in> set (hm_nodes (db g)). key (heap g n) = k \<and> val (heap g n) = v"
    and "\<And>k n. M k = None \<Longrightarrow> n \<in> set (hm_nodes (db g)) \<Longrightarrow> key (heap g n) \<noteq> k"
  shows "db_abs g M"
  unfolding db_abs_def using assms by (auto split: option.splits)

lemma db_abs_key:
  assumes "db_ok a g" "db_abs g M" "n \<in> set (hm_nodes (db g))"
  shows "M (key (heap g n)) = Some (val (heap g n))"
proof (cases "M (key (heap g n))")
  case None
  from db_abs_NoneD [OF assms(2) None assms(3)] show ?thesis by simp
next
  case (Some v)
  from db_abs_SomeD [OF assms(2) Some] obtain n' where n': "n' \<in> set (hm_nodes (db g))"
    "key (heap g n') = key (heap g n)" "val (heap g n') = v" by auto
  from inj_onD [OF db_okD(7) [OF assms(1)] n'(2) n'(1) assms(3)] have "n' = n" .
  with n'(3) Some show ?thesis by simp
qed

lemma db_lookup:
  assumes ok: "db_ok a g"
    and lk: "hm_lookup (entry_hcode g) (db g) (node (probe k))
               (\<lambda>x. entry_eq (entry_at g x) (probe k)) = (db', r)"
  shows "db_ok a (g\<lparr>db := db'\<rparr>)" "set (hm_nodes db') = set (hm_nodes (db g))"
    "r \<noteq> nullptr \<Longrightarrow> r \<in> set (hm_nodes (db g)) \<and> key (heap g r) = k"
    "r = nullptr \<Longrightarrow> n \<in> set (hm_nodes (db g)) \<Longrightarrow> key (heap g n) \<noteq> k"
proof -
  have nn: "nullptr \<notin> set (hm_nodes (db g))" using db_nodes(1) [OF ok] by blast
  note L = hm_lookup_ok [OF db_okD(1) [OF ok] nn lk]
  show st: "set (hm_nodes db') = set (hm_nodes (db g))" by (rule L(2))
  have hc: "entry_hcode (g\<lparr>db := db'\<rparr>) = entry_hcode g"
    by (rule ext) (simp add: entry_hcode_eq)
  show "db_ok a (g\<lparr>db := db'\<rparr>)"
  proof (rule db_okI)
    show "hm_ok (entry_hcode (g\<lparr>db := db'\<rparr>)) (db (g\<lparr>db := db'\<rparr>))"
      unfolding hc using L(1) by simp
    show "brk (g\<lparr>db := db'\<rparr>) = entry_addr a" using db_okD(2) [OF ok] by simp
    show "a < 2 ^ 56" by (rule db_okD(3) [OF ok])
    show "set (hm_nodes (db (g\<lparr>db := db'\<rparr>))) \<subseteq> entry_addr ` {..<a}"
      using db_okD(4) [OF ok] st by simp
    show "hcode (node (heap (g\<lparr>db := db'\<rparr>) x)) = str_hash (key (heap (g\<lparr>db := db'\<rparr>) x))"
      if "x \<in> set (hm_nodes (db (g\<lparr>db := db'\<rparr>)))" for x
      using db_okD(5) [OF ok, of x] that st by simp
    show "length (val (heap (g\<lparr>db := db'\<rparr>) x)) \<le> k_max_msg"
      if "x \<in> set (hm_nodes (db (g\<lparr>db := db'\<rparr>)))" for x
      using db_okD(6) [OF ok, of x] that st by simp
    show "inj_on (\<lambda>n. key (heap (g\<lparr>db := db'\<rparr>) n)) (set (hm_nodes (db (g\<lparr>db := db'\<rparr>))))"
      using db_okD(7) [OF ok] st by simp
    show "length (tab (newer (db (g\<lparr>db := db'\<rparr>)))) \<le> max 4 a"
      using db_okD(8) [OF ok] L(3) by simp
  qed
  show "r \<in> set (hm_nodes (db g)) \<and> key (heap g r) = k" if "r \<noteq> nullptr"
    using L(4) [OF that] by (simp add: eq_probe)
  show "key (heap g n) \<noteq> k" if "r = nullptr" "n \<in> set (hm_nodes (db g))"
  proof
    assume e: "key (heap g n) = k"
    from db_okD(5) [OF ok that(2)] e have "entry_hcode g n = hcode (node (probe k))"
      by (simp add: entry_hcode_eq hcode_probe)
    with L(5) [OF that] e show False by (simp add: eq_probe)
  qed
qed

lemma db_abs_db_update:
  assumes "db_abs g M" "set (hm_nodes db') = set (hm_nodes (db g))"
  shows "db_abs (g\<lparr>db := db'\<rparr>) M"
  using assms unfolding db_abs_def by (simp cong: option.case_cong)

lemma do_get_sim:
  assumes ok: "db_ok a g" and ab: "db_abs g M"
  shows "\<exists>g'. do_get [c0, k] out g
           = Some ((case M k of Some v \<Rightarrow> out\<lparr>data := v\<rparr> | None \<Rightarrow> out\<lparr>status := RES_NX\<rparr>), g')
         \<and> db_ok a g' \<and> db_abs g' M"
proof -
  obtain db' r where lk: "hm_lookup (entry_hcode g) (db g) (node (probe k))
               (\<lambda>x. entry_eq (entry_at g x) (probe k)) = (db', r)"
    by (cases "hm_lookup (entry_hcode g) (db g) (node (probe k))
               (\<lambda>x. entry_eq (entry_at g x) (probe k))") blast
  note L = db_lookup [OF ok lk]
  note ab' = db_abs_db_update [OF ab L(2)]
  show ?thesis
  proof (cases "r = nullptr")
    case True
    have "M k = None"
    proof (cases "M k")
      case (Some v)
      from db_abs_SomeD [OF ab Some] L(4) [OF True] show ?thesis by blast
    qed simp
    with True L(1) ab' show ?thesis by (simp add: do_get_def lk Let_def)
  next
    case False
    from L(3) [OF False] have r: "r \<in> set (hm_nodes (db g))" "key (heap g r) = k" by simp_all
    from db_abs_key [OF ok ab r(1)] r(2) have m: "M k = Some (val (heap g r))" by simp
    from db_okD(6) [OF ok r(1)] have "length (val (heap g r)) \<le> k_max_msg" .
    moreover have "val (entry_at (g\<lparr>db := db'\<rparr>) r) = val (heap g r)"
      by (simp add: entry_at_def container_of_def offsetof_Entry_node_def)
    ultimately show ?thesis using False L(1) ab' m
      by (simp add: do_get_def lk Let_def)
  qed
qed

lemma do_del_sim:
  assumes ok: "db_ok a g" and ab: "db_abs g M"
  shows "\<exists>g'. do_del [c0, k] out g = Some (out, g') \<and> db_ok a g' \<and> db_abs g' (M(k := None))"
proof -
  obtain db' r where dl: "hm_delete (entry_hcode g) (db g) (node (probe k))
               (\<lambda>x. entry_eq (entry_at g x) (probe k)) = (db', r)"
    by (cases "hm_delete (entry_hcode g) (db g) (node (probe k))
               (\<lambda>x. entry_eq (entry_at g x) (probe k))") blast
  have nn: "nullptr \<notin> set (hm_nodes (db g))" using db_nodes(1) [OF ok] by blast
  note D = hm_delete_ok [OF db_okD(1) [OF ok] nn dl]
  define g' where "g' = g\<lparr>db := db'\<rparr>"
  have sel: "db g' = db'" "heap g' = heap g" "brk g' = brk g" by (simp_all add: g'_def)
  have hc: "entry_hcode g' = entry_hcode g"
    by (rule ext) (simp add: entry_hcode_eq sel)
  have res: "do_del [c0, k] out g = Some (out, g')"
    by (simp add: do_del_def dl g'_def)
  have sub: "set (hm_nodes db') \<subseteq> set (hm_nodes (db g))"
    using D(3,4) by (cases "r = nullptr") auto
  have ok': "db_ok a g'"
  proof (rule db_okI)
    show "hm_ok (entry_hcode g') (db g')" unfolding hc sel by (rule D(1))
    show "brk g' = entry_addr a" unfolding sel by (rule db_okD(2) [OF ok])
    show "a < 2 ^ 56" by (rule db_okD(3) [OF ok])
    show "set (hm_nodes (db g')) \<subseteq> entry_addr ` {..<a}"
      unfolding sel using db_okD(4) [OF ok] sub by blast
    show "hcode (node (heap g' x)) = str_hash (key (heap g' x))"
      if "x \<in> set (hm_nodes (db g'))" for x
      unfolding sel using db_okD(5) [OF ok, of x] that sub unfolding sel by blast
    show "length (val (heap g' x)) \<le> k_max_msg" if "x \<in> set (hm_nodes (db g'))" for x
      unfolding sel using db_okD(6) [OF ok, of x] that sub unfolding sel by blast
    show "inj_on (\<lambda>n. key (heap g' n)) (set (hm_nodes (db g')))"
      unfolding sel by (rule inj_on_subset [OF db_okD(7) [OF ok] sub])
    show "length (tab (newer (db g'))) \<le> max 4 a"
      unfolding sel D(2) by (rule db_okD(8) [OF ok])
  qed
  have ab': "db_abs g' (M(k := None))"
  proof (rule db_absI)
    fix k' v
    assume "(M(k := None)) k' = Some v"
    then have kk: "k' \<noteq> k" and s: "M k' = Some v" by (auto split: if_splits)
    from db_abs_SomeD [OF ab s] obtain x where x: "x \<in> set (hm_nodes (db g))"
      "key (heap g x) = k'" "val (heap g x) = v" by auto
    have "x \<in> set (hm_nodes db')"
    proof (cases "r = nullptr")
      case True
      with D(4) x(1) show ?thesis by simp
    next
      case False
      from D(3) [OF False] have "key (heap g r) = k" by (simp add: eq_probe)
      with x(2) kk have "x \<noteq> r" by auto
      with D(3) [OF False] x(1) show ?thesis by simp
    qed
    with x(2,3) show "\<exists>n \<in> set (hm_nodes (db g')). key (heap g' n) = k' \<and> val (heap g' n) = v"
      unfolding sel by blast
  next
    fix k' x
    assume n: "(M(k := None)) k' = None" and x: "x \<in> set (hm_nodes (db g'))"
    from x sub have xg: "x \<in> set (hm_nodes (db g))" unfolding sel by blast
    show "key (heap g' x) \<noteq> k'"
    proof (cases "k' = k")
      case kk: True
      show ?thesis
      proof (cases "r = nullptr")
        case True
        from D(4) [OF True] xg have "\<not> (entry_hcode g x = hcode (node (probe k))
            \<and> entry_eq (entry_at g x) (probe k))" by blast
        then show ?thesis unfolding sel kk
          using db_okD(5) [OF ok xg] by (auto simp: entry_hcode_eq hcode_probe eq_probe)
      next
        case False
        from D(3) [OF False] have r: "r \<in> set (hm_nodes (db g))" "key (heap g r) = k"
          "set (hm_nodes db') = set (hm_nodes (db g)) - {r}" by (simp_all add: eq_probe)
        from x r(3) have "x \<noteq> r" unfolding sel by simp
        with inj_onD [OF db_okD(7) [OF ok] _ xg r(1)] r(2) show ?thesis
          unfolding sel kk by auto
      qed
    next
      case False
      with n have "M k' = None" by simp
      from db_abs_NoneD [OF ab this xg] show ?thesis unfolding sel .
    qed
  qed
  from res ok' ab' show ?thesis by blast
qed

lemma key_probe: "key (probe k) = k"
  by (simp add: probe_def)

lemma do_set_sim:
  assumes ok: "db_ok a g" and ab: "db_abs g M" and bound: "Suc a < 2 ^ 56"
    and small: "length v \<le> k_max_msg"
  shows "\<exists>g' a'. do_set [c0, k, v] out g = Some (out, g') \<and> db_ok a' g' \<and> a' \<le> Suc a
           \<and> db_abs g' (M(k \<mapsto> v))"
proof -
  obtain db' r where lk: "hm_lookup (entry_hcode g) (db g) (node (probe k))
               (\<lambda>x. entry_eq (entry_at g x) (probe k)) = (db', r)"
    by (cases "hm_lookup (entry_hcode g) (db g) (node (probe k))
               (\<lambda>x. entry_eq (entry_at g x) (probe k))") blast
  note L = db_lookup [OF ok lk]
  define g1 where "g1 = g\<lparr>db := db'\<rparr>"
  have sel1: "db g1 = db'" "heap g1 = heap g" "brk g1 = brk g" by (simp_all add: g1_def)
  note ok1 = L(1) [folded g1_def]
  note st = L(2)
  show ?thesis
  proof (cases "r = nullptr")
    case False
    from L(3) [OF False] have r: "r \<in> set (hm_nodes (db g))" "key (heap g r) = k" by simp_all
    define g' where "g' = g1\<lparr>heap := (heap g1)(r := (heap g1 r)\<lparr>val := v\<rparr>)\<rparr>"
    have res: "do_set [c0, k, v] out g = Some (out, g')"
      by (simp add: do_set_def lk Let_def False g'_def g1_def container_of_def
          offsetof_Entry_node_def)
    have sel: "db g' = db'" "brk g' = brk g" by (simp_all add: g'_def sel1)
    have hk: "key (heap g' x) = key (heap g x)"
      "hcode (node (heap g' x)) = hcode (node (heap g x))"
      "val (heap g' x) = (if x = r then v else val (heap g x))" for x
      by (simp_all add: g'_def sel1)
    have hc: "entry_hcode g' = entry_hcode g1"
      by (rule ext) (simp add: entry_hcode_eq hk sel1)
    have ok': "db_ok a g'"
    proof (rule db_okI)
      show "hm_ok (entry_hcode g') (db g')" unfolding hc sel sel1 [symmetric]
        by (rule db_okD(1) [OF ok1])
      show "brk g' = entry_addr a" unfolding sel by (rule db_okD(2) [OF ok])
      show "a < 2 ^ 56" by (rule db_okD(3) [OF ok])
      show "set (hm_nodes (db g')) \<subseteq> entry_addr ` {..<a}"
        unfolding sel st by (rule db_okD(4) [OF ok])
      show "hcode (node (heap g' x)) = str_hash (key (heap g' x))"
        if "x \<in> set (hm_nodes (db g'))" for x
        unfolding hk by (rule db_okD(5) [OF ok that [unfolded sel st]])
      show "length (val (heap g' x)) \<le> k_max_msg" if "x \<in> set (hm_nodes (db g'))" for x
        unfolding hk using db_okD(6) [OF ok that [unfolded sel st]] small by simp
      show "inj_on (\<lambda>n. key (heap g' n)) (set (hm_nodes (db g')))"
        unfolding hk sel st by (rule db_okD(7) [OF ok])
      show "length (tab (newer (db g'))) \<le> max 4 a"
        unfolding sel sel1 [symmetric] by (rule db_okD(8) [OF ok1])
    qed
    have ab': "db_abs g' (M(k \<mapsto> v))"
    proof (rule db_absI)
      fix k' v'
      assume s: "(M(k \<mapsto> v)) k' = Some v'"
      show "\<exists>n \<in> set (hm_nodes (db g')). key (heap g' n) = k' \<and> val (heap g' n) = v'"
      proof (cases "k' = k")
        case True
        with s have "v' = v" by simp
        with r True show ?thesis unfolding sel st hk by auto
      next
        case kk: False
        with s have "M k' = Some v'" by simp
        from db_abs_SomeD [OF ab this] obtain x where x: "x \<in> set (hm_nodes (db g))"
          "key (heap g x) = k'" "val (heap g x) = v'" by auto
        from x(2) r(2) kk have "x \<noteq> r" by auto
        with x show ?thesis unfolding sel st hk by auto
      qed
    next
      fix k' x
      assume n: "(M(k \<mapsto> v)) k' = None" and x: "x \<in> set (hm_nodes (db g'))"
      from n have "M k' = None" by (auto split: if_splits)
      from db_abs_NoneD [OF ab this x [unfolded sel st]] show "key (heap g' x) \<noteq> k'"
        unfolding hk .
    qed
    from res ok' ab' show ?thesis by (intro exI [of _ g'] exI [of _ a]) simp
  next
    case True
    define ent where "ent = brk g"
    define e where "e = \<lparr>node = \<lparr>hcode = str_hash k\<rparr>, key = k, val = v\<rparr>"
    define g2 where "g2 = g1\<lparr>brk := brk g1 + sizeof_Entry, heap := (heap g1)(ent := e)\<rparr>"
    define g' where "g' = g2\<lparr>db := hm_insert (entry_hcode g2) (db g2) ent\<rparr>"
    have res: "do_set [c0, k, v] out g = Some (out, g')"
      by (simp add: do_set_def lk Let_def True g'_def g2_def g1_def ent_def e_def
          hcode_probe key_probe offsetof_Entry_node_def)
    have enta: "ent = entry_addr a" unfolding ent_def by (rule db_okD(2) [OF ok])
    have fresh: "ent \<notin> set (hm_nodes db')"
      unfolding st ent_def using db_nodes(2) [OF ok] by blast
    have sel2: "db g2 = db'" "heap g2 = (heap g)(ent := e)" "brk g2 = entry_addr (Suc a)"
      by (simp_all add: g2_def sel1 entry_addr_Suc [symmetric] db_okD(2) [OF ok])
    have "hm_ok (entry_hcode g1) db'" using db_okD(1) [OF ok1] unfolding sel1 .
    then have ok2: "hm_ok (entry_hcode g2) db'"
    proof (rule hm_ok_cong [rotated])
      fix n
      assume "n \<in> set (hm_nodes db')"
      with fresh have "n \<noteq> ent" by auto
      then show "entry_hcode g1 n = entry_hcode g2 n"
        by (simp add: entry_hcode_eq sel1 sel2)
    qed
    from db_okD(8) [OF ok1] have cp: "length (tab (newer db')) \<le> max 4 a" unfolding sel1 .
    have "length (tab (newer db')) \<le> 2 ^ 63"
    proof -
      from db_okD(3) [OF ok] have "a \<le> 2 ^ 56" by simp
      also have "(2::nat) ^ 56 \<le> 2 ^ 63" by simp
      finally have "a \<le> 2 ^ 63" .
      moreover have "(4::nat) \<le> 2 ^ 63" by simp
      ultimately have "max 4 a \<le> 2 ^ 63" by (rule max.boundedI [rotated])
      with cp show ?thesis by (rule order_trans)
    qed
    note I = hm_insert_ok [OF ok2 fresh this]
    have sel: "db g' = hm_insert (entry_hcode g2) db' ent" "heap g' = (heap g)(ent := e)"
      "brk g' = entry_addr (Suc a)"
      by (simp_all add: g'_def sel2)
    have hc: "entry_hcode g' = entry_hcode g2"
      by (rule ext) (simp add: entry_hcode_eq sel sel2)
    have nd: "set (hm_nodes (db g')) = insert ent (set (hm_nodes (db g)))"
      unfolding sel I(2) st ..
    have old: "heap g' x = heap g x" if "x \<in> set (hm_nodes (db g))" for x
    proof -
      from that fresh have "x \<noteq> ent" unfolding st by auto
      then show ?thesis unfolding sel by simp
    qed
    have new: "heap g' ent = e" unfolding sel by simp
    have nok: "key (heap g x) \<noteq> k" if "x \<in> set (hm_nodes (db g))" for x
      by (rule L(4) [OF True that])
    have ok': "db_ok (Suc a) g'"
    proof (rule db_okI)
      show "hm_ok (entry_hcode g') (db g')" unfolding hc sel by (rule I(1))
      show "brk g' = entry_addr (Suc a)" by (rule sel(3))
      show "Suc a < 2 ^ 56" by (rule bound)
      show "set (hm_nodes (db g')) \<subseteq> entry_addr ` {..<Suc a}"
        unfolding nd enta using db_okD(4) [OF ok] by (auto simp: lessThan_Suc)
      show "hcode (node (heap g' x)) = str_hash (key (heap g' x))"
        if "x \<in> set (hm_nodes (db g'))" for x
      proof (cases "x = ent")
        case True
        show ?thesis unfolding True new by (simp add: e_def)
      next
        case False
        with that have x: "x \<in> set (hm_nodes (db g))" unfolding nd by simp
        show ?thesis unfolding old [OF x] by (rule db_okD(5) [OF ok x])
      qed
      show "length (val (heap g' x)) \<le> k_max_msg" if "x \<in> set (hm_nodes (db g'))" for x
      proof (cases "x = ent")
        case True
        show ?thesis unfolding True new using small by (simp add: e_def)
      next
        case False
        with that have x: "x \<in> set (hm_nodes (db g))" unfolding nd by simp
        show ?thesis unfolding old [OF x] by (rule db_okD(6) [OF ok x])
      qed
      show "inj_on (\<lambda>n. key (heap g' n)) (set (hm_nodes (db g')))"
      proof (rule inj_onI)
        fix x y
        assume x: "x \<in> set (hm_nodes (db g'))" and y: "y \<in> set (hm_nodes (db g'))"
          and eq: "key (heap g' x) = key (heap g' y)"
        have ke: "key (heap g' ent) = k" unfolding new by (simp add: e_def)
        show "x = y"
        proof (cases "x = ent")
          case xe: True
          show ?thesis
          proof (cases "y = ent")
            case True
            with xe show ?thesis by simp
          next
            case False
            with y have y': "y \<in> set (hm_nodes (db g))" unfolding nd by simp
            from eq nok [OF y'] show ?thesis unfolding xe ke old [OF y'] by simp
          qed
        next
          case xe: False
          with x have x': "x \<in> set (hm_nodes (db g))" unfolding nd by simp
          show ?thesis
          proof (cases "y = ent")
            case True
            from eq nok [OF x'] show ?thesis unfolding True ke old [OF x'] by simp
          next
            case False
            with y have y': "y \<in> set (hm_nodes (db g))" unfolding nd by simp
            from eq have "key (heap g x) = key (heap g y)" unfolding old [OF x'] old [OF y'] .
            then show ?thesis by (rule inj_onD [OF db_okD(7) [OF ok] _ x' y'])
          qed
        qed
      qed
      show "length (tab (newer (db g'))) \<le> max 4 (Suc a)"
      proof -
        from db_count [OF ok1] have "length (hm_nodes db') \<le> a" unfolding sel1 .
        with I(3) cp show ?thesis unfolding sel by linarith
      qed
    qed
    have ab': "db_abs g' (M(k \<mapsto> v))"
    proof (rule db_absI)
      fix k' v'
      assume s: "(M(k \<mapsto> v)) k' = Some v'"
      show "\<exists>n \<in> set (hm_nodes (db g')). key (heap g' n) = k' \<and> val (heap g' n) = v'"
      proof (cases "k' = k")
        case True
        with s have "v' = v" by simp
        then have "key (heap g' ent) = k' \<and> val (heap g' ent) = v'"
          unfolding new True by (simp add: e_def)
        then show ?thesis unfolding nd by blast
      next
        case kk: False
        with s have "M k' = Some v'" by simp
        from db_abs_SomeD [OF ab this] obtain x where x: "x \<in> set (hm_nodes (db g))"
          "key (heap g x) = k'" "val (heap g x) = v'" by auto
        from x(2,3) have "key (heap g' x) = k' \<and> val (heap g' x) = v'"
          unfolding old [OF x(1)] by simp
        with x(1) show ?thesis unfolding nd by blast
      qed
    next
      fix k' x
      assume n: "(M(k \<mapsto> v)) k' = None" and x: "x \<in> set (hm_nodes (db g'))"
      from n have kk: "k' \<noteq> k" and m: "M k' = None" by (auto split: if_splits)
      show "key (heap g' x) \<noteq> k'"
      proof (cases "x = ent")
        case True
        from kk show ?thesis unfolding True new by (simp add: e_def)
      next
        case False
        with x have x': "x \<in> set (hm_nodes (db g))" unfolding nd by simp
        from db_abs_NoneD [OF ab m x'] show ?thesis unfolding old [OF x'] .
      qed
    qed
    from res ok' ab' show ?thesis by (intro exI [of _ g'] exI [of _ "Suc a"]) simp
  qed
qed

lemma do_request_sim:
  assumes ok: "db_ok a g" and ab: "db_abs g M" and bound: "Suc a < 2 ^ 56"
    and small: "small_value c"
  shows "\<exists>resp g' a'. do_request (argv c) Response0 g = Some (resp, g') \<and> db_ok a' g'
           \<and> a' \<le> Suc a \<and> db_abs g' (snd (kv_do_request (argv c) Response0 M))"
proof (cases c)
  case (Set k v)
  have d: "do_request (argv c) Response0 g = do_set [str ''set'', k, v] Response0 g"
    and m: "snd (kv_do_request (argv c) Response0 M) = M(k \<mapsto> v)"
    unfolding Set by (simp_all add: do_request_def kv_do_request_def)
  from small have "length v \<le> k_max_msg" unfolding Set by simp
  from do_set_sim [OF ok ab bound this, of "str ''set''" k Response0]
  show ?thesis unfolding d m by blast
next
  case (Get k)
  have d: "do_request (argv c) Response0 g = do_get [str ''get'', k] Response0 g"
    and m: "snd (kv_do_request (argv c) Response0 M) = M"
    unfolding Get by (simp_all add: do_request_def kv_do_request_def split: option.splits)
  from do_get_sim [OF ok ab, of "str ''get''" k Response0]
  show ?thesis unfolding d m by (meson le_SucI order_refl)
next
  case (Del k)
  have d: "do_request (argv c) Response0 g = do_del [str ''del'', k] Response0 g"
    and m: "snd (kv_do_request (argv c) Response0 M) = M(k := None)"
    unfolding Del by (simp_all add: do_request_def kv_do_request_def)
  from do_del_sim [OF ok ab, of "str ''del''" k Response0]
  show ?thesis unfolding d m by (meson le_SucI order_refl)
qed

lemma run_requests_sim:
  "db_ok a g \<Longrightarrow> db_abs g M \<Longrightarrow> a + length cs < 2 ^ 56 \<Longrightarrow> list_all small_value cs
     \<Longrightarrow> \<exists>g' a'. run_requests cs g = Some g' \<and> db_ok a' g' \<and> db_abs g' (kv_run cs M)"
proof (induction cs arbitrary: a g M)
  case Nil
  then show ?case by auto
next
  case (Cons c cs)
  from Cons.prems(3) have b: "Suc a < 2 ^ 56" by simp
  from Cons.prems(4) have s: "small_value c" "list_all small_value cs" by simp_all
  from do_request_sim [OF Cons.prems(1,2) b s(1)] obtain resp g1 a1
    where st: "do_request (argv c) Response0 g = Some (resp, g1)" "db_ok a1 g1" "a1 \<le> Suc a"
      "db_abs g1 (snd (kv_do_request (argv c) Response0 M))" by blast
  from st(3) Cons.prems(3) have "a1 + length cs < 2 ^ 56" by simp
  from Cons.IH [OF st(2) st(4) this s(2)] show ?case by (simp add: st(1))
qed

lemma db_ok_g_data0: "db_ok 0 g_data0" "db_abs g_data0 Map.empty"
proof -
  have n: "hm_nodes (db g_data0) = []"
    by (simp add: g_data0_def HMap0_def hm_nodes_def tab_ok_HTab0)
  have "hm_ok (entry_hcode g_data0) (db g_data0)"
    by (rule hm_okI) (simp_all add: n, simp_all add: g_data0_def HMap0_def tab_ok_HTab0)
  then show "db_ok 0 g_data0" unfolding db_ok_def n
    by (simp add: g_data0_def HMap0_def tab_ok_HTab0 entry_addr_def)
  show "db_abs g_data0 Map.empty" unfolding db_abs_def n by simp
qed

text \<open>
  The dispatcher of the event-loop server (CustomHashtable/main.cpp), over the hash map,
  answers a \<open>get\<close> as the dispatcher of the basic key-value store does: after a history of
  fewer than \<open>2 ^ 56\<close> commands whose values are within \<^verbatim>\<open>k_max_msg\<close>, run from the empty
  keyspace, no assertion fails, and \<open>get k\<close> returns \<^verbatim>\<open>RES_OK\<close> with the value of the most
  recent \<open>set k v\<close> not followed by a \<open>del k\<close>, or \<^verbatim>\<open>RES_NX\<close> with no data when there is
  none.
\<close>

lemma do_request_get_returns_last_set:
  assumes "list_all small_value history" "length history < 2 ^ 56"
  shows "\<exists>g g'. run_requests history g_data0 = Some g
     \<and> do_request (argv (Get k)) Response0 g
         = Some ((case last_set k history of
                    Some v \<Rightarrow> \<lparr>status = RES_OK, data = v\<rparr>
                  | None \<Rightarrow> \<lparr>status = RES_NX, data = []\<rparr>), g')"
proof -
  from assms(2) have "0 + length history < 2 ^ 56" by simp
  from run_requests_sim [OF db_ok_g_data0 this assms(1)] obtain g a
    where g: "run_requests history g_data0 = Some g" "db_ok a g"
      "db_abs g (kv_run history Map.empty)" by blast
  have d: "do_request (argv (Get k)) Response0 g = do_get [str ''get'', k] Response0 g"
    by (simp add: do_request_def)
  from do_get_sim [OF g(2,3), of "str ''get''" k Response0] obtain g'
    where "do_get [str ''get'', k] Response0 g
      = Some ((case kv_run history Map.empty k of
                 Some v \<Rightarrow> Response0\<lparr>data := v\<rparr>
               | None \<Rightarrow> Response0\<lparr>status := RES_NX\<rparr>), g')" by blast
  then have "do_request (argv (Get k)) Response0 g
         = Some ((case last_set k history of
                    Some v \<Rightarrow> \<lparr>status = RES_OK, data = v\<rparr>
                  | None \<Rightarrow> \<lparr>status = RES_NX, data = []\<rparr>), g')"
    unfolding d kv_run_lookup by (simp add: Response0_def RES_OK_def split: option.splits)
  with g(1) show ?thesis by blast
qed

section \<open>Proofs: the framer of the event-loop server\<close>

lemma unat_frame_size:
  "unat len \<le> k_max_msg \<Longrightarrow> unat (4 + len :: 32 word) = 4 + unat len"
proof -
  assume "unat len \<le> k_max_msg"
  then have "unat (4 :: 32 word) + unat len < 2 ^ LENGTH(32)"
    by (simp add: k_max_msg_def)
  then have "unat (4 + len) = unat (4 :: 32 word) + unat len"
    by (simp only: unat_add_lem)
  then show ?thesis by simp
qed

lemma try_one_request_consumes:
  assumes "try_one_request conn g = Some (True, conn', g')"
  shows "length (incoming conn') < length (incoming conn)"
proof -
  let ?len = "u32_of_bytes (take 4 (incoming conn))"
  from assms have a: "4 \<le> length (incoming conn)" and b: "unat ?len \<le> k_max_msg"
    and c: "incoming conn' = buf_consume (incoming conn) (unat (4 + ?len))"
    by (auto simp: try_one_request_def Let_def split: if_splits option.splits)
  show ?thesis using a by (simp add: c buf_consume_def unat_frame_size [OF b])
qed

lemma try_one_request_frame:
  assumes len: "length payload \<le> k_max_msg"
    and cmd: "parse_req payload [] = Some cmd"
    and resp: "do_request cmd Response0 g = Some (resp, g')"
  shows "try_one_request (conn\<lparr>incoming := frame payload @ rest\<rparr>) g
       = Some (True, conn\<lparr>incoming := rest, outgoing := make_response resp (outgoing conn)\<rparr>, g')"
proof -
  let ?len = "of_nat (length payload) :: 32 word"
  have lt: "length payload < 2 ^ 32" using len by (simp add: k_max_msg_def)
  have un: "unat ?len = length payload" by (rule unat_of_nat_u32 [OF lt])
  have hd: "u32_of_bytes (take 4 (frame payload @ rest)) = ?len"
    by (simp add: frame_def)
  have sz: "unat (4 + ?len) = 4 + length payload"
    using unat_frame_size [of ?len] len by (simp only: un)
  have pl: "take (length payload) (drop 4 (frame payload @ rest)) = payload"
    by (simp add: frame_def)
  have dr: "drop (4 + length payload) (frame payload @ rest) = rest"
    by (simp add: frame_def)
  define buf where "buf = frame payload @ rest"
  have l4: "\<not> length buf < 4" by (simp add: buf_def frame_def)
  have fit: "\<not> 4 + length payload > length buf" by (simp add: buf_def frame_def)
  have km: "\<not> k_max_msg < length payload" using len by simp
  have "try_one_request (conn\<lparr>incoming := buf\<rparr>) g
       = Some (True, conn\<lparr>incoming := rest, outgoing := make_response resp (outgoing conn)\<rparr>, g')"
    using l4 fit km
    by (simp add: try_one_request_def Let_def hd [folded buf_def] un sz pl [folded buf_def]
        dr [folded buf_def] cmd resp buf_consume_def)
  then show ?thesis by (simp only: buf_def)
qed

text \<open>
  C10. A frame whose payload declares \<open>nstr = 0\<close> and holds nothing else is accepted by
  the parser with an empty argument vector; \<^verbatim>\<open>try_one_request\<close> consumes it, returns true,
  appends the response \<open>len = 4 | status = RES_ERR\<close> with no data, and changes no other field
  of the connection, so \<^verbatim>\<open>want_close\<close> stays as it was.
\<close>

theorem empty_argv_frame_answered_with_ERR:
  "parse_req (encode_req []) [] = Some []
   \<and> try_one_request (conn\<lparr>incoming := frame (encode_req []) @ rest\<rparr>) g
       = Some (True,
               conn\<lparr>incoming := rest,
                    outgoing := outgoing conn @ bytes_of_u32 4 @ bytes_of_u32 RES_ERR\<rparr>,
               g)"
proof -
  have r: "do_request [] Response0 g = Some (Response0\<lparr>status := RES_ERR\<rparr>, g)"
    by (simp add: do_request_def)
  have l: "length (encode_req []) \<le> k_max_msg"
    by (simp add: encode_req_def k_max_msg_def)
  have m: "make_response (Response0\<lparr>status := RES_ERR\<rparr>) (outgoing conn)
             = outgoing conn @ bytes_of_u32 4 @ bytes_of_u32 RES_ERR"
    by (simp add: make_response_def buf_append_def Response0_def)
  show ?thesis
    using try_one_request_frame [OF l parse_req_nstr0 r, where conn = conn and rest = rest]
    by (simp only: m parse_req_nstr0 simp_thms)
qed

section \<open>Proofs: status codes\<close>

lemma status_field_make_response [simp]:
  "status_field (make_response resp []) = status resp"
  by (simp add: status_field_def make_response_def buf_append_def Let_def)

lemma do_request_status:
  assumes "do_request cmd Response0 g = Some (resp, g')"
  shows "status resp = (if \<not> recognised cmd then RES_ERR
                        else if is_cmd ''get'' 2 cmd \<and> db_find g (cmd ! 1) = nullptr then RES_NX
                        else RES_OK)"
  using assms
  by (auto simp: do_request_def do_get_def do_set_def do_del_def recognised_def is_cmd_def
      db_find_def Response0_def RES_OK_def Let_def split: if_splits prod.splits)

lemma kv_do_request_status:
  "status (fst (kv_do_request cmd Response0 m))
     = (if \<not> recognised cmd then kv_RES_ERR
        else if is_cmd ''get'' 2 cmd \<and> m (cmd ! 1) = None then kv_RES_NX
        else kv_RES_OK)"
  by (auto simp: kv_do_request_def recognised_def is_cmd_def Response0_def kv_RES_OK_def
      split: option.splits)

text \<open>
  C6, as amended. In every response frame of the event-loop server (CustomHashtable/main.cpp)
  the status field is 0 (\<open>RES_OK\<close>) for success, 1 (\<open>RES_ERR\<close>) for an unrecognised command
  and 2 (\<open>RES_NX\<close>) for a \<open>get\<close> of a key that the table does not hold. The basic
  key-value store numbers them otherwise, as its README documents: 0 for success, 1 for a
  missing key, 2 for an error.
\<close>

theorem response_status_codes:
  assumes "do_request cmd Response0 g = Some (resp, g')"
  shows "RES_OK = 0 \<and> RES_ERR = 1 \<and> RES_NX = 2
     \<and> status_field (make_response resp [])
         = (if \<not> recognised cmd then RES_ERR
            else if is_cmd ''get'' 2 cmd \<and> db_find g (cmd ! 1) = nullptr then RES_NX
            else RES_OK)
     \<and> kv_RES_OK = 0 \<and> kv_RES_NX = 1 \<and> kv_RES_ERR = 2
     \<and> status_field (make_response (fst (kv_do_request cmd Response0 m)) [])
         = (if \<not> recognised cmd then kv_RES_ERR
            else if is_cmd ''get'' 2 cmd \<and> m (cmd ! 1) = None then kv_RES_NX
            else kv_RES_OK)"
  using do_request_status [OF assms] kv_do_request_status [of cmd m]
  by (simp add: RES_OK_def RES_ERR_def RES_NX_def kv_RES_OK_def kv_RES_NX_def kv_RES_ERR_def)

lemma hm_help_rehashing_HMap0 [simp]: "hm_help_rehashing hc HMap0 = HMap0"
  by (simp add: hm_help_rehashing_def hm_help_loop.simps HMap0_def HTab0_def)

lemma do_get_absent0:
  "do_request [str ''get'', str ''foo''] Response0 g_data0
     = Some (Response0\<lparr>status := RES_NX\<rparr>, g_data0)"
  by (simp add: do_request_def do_get_def hm_lookup_def h_lookup_def g_data0_def Let_def
      HMap0_def HTab0_def hm_help_rehashing_HMap0 [unfolded HMap0_def HTab0_def])

theorem response_status_codes_witness:
  "do_request [str ''get'', str ''foo''] Response0 g_data0
     = Some (Response0\<lparr>status := RES_NX\<rparr>, g_data0)
   \<and> status_field (make_response (Response0\<lparr>status := RES_NX\<rparr>) []) = 2
   \<and> status_field (make_response (fst (kv_do_request [str ''get'', str ''foo''] Response0 Map.empty)) []) = 1"
  using response_status_codes [OF do_get_absent0, of Map.empty] do_get_absent0
  by (simp add: recognised_def is_cmd_def kv_RES_NX_def RES_NX_def db_find_def)

text \<open>
  C6 as stated fails: in the basic key-value store a \<open>get\<close> of an absent key produces a
  response frame with status 1, not 2.
\<close>

theorem kv_get_absent_counterexample:
  "status_field (make_response (fst (kv_do_request [str ''get'', str ''foo''] Response0 Map.empty)) []) = 1
   \<and> status_field (make_response (fst (kv_do_request [str ''get'', str ''foo''] Response0 Map.empty)) []) \<noteq> 2"
  by (simp add: kv_do_request_def kv_RES_NX_def)

section \<open>Proofs: what the parser rejects\<close>

lemma try_one_request_reject:
  assumes len: "length payload \<le> k_max_msg"
    and rej: "parse_req payload [] = None"
  shows "try_one_request (conn\<lparr>incoming := frame payload @ rest\<rparr>) g
       = Some (False, conn\<lparr>incoming := frame payload @ rest, want_close := True\<rparr>, g)"
proof -
  let ?len = "of_nat (length payload) :: 32 word"
  have lt: "length payload < 2 ^ 32" using len by (simp add: k_max_msg_def)
  have un: "unat ?len = length payload" by (rule unat_of_nat_u32 [OF lt])
  have hd: "u32_of_bytes (take 4 (frame payload @ rest)) = ?len"
    by (simp add: frame_def)
  have sz: "unat (4 + ?len) = 4 + length payload"
    using unat_frame_size [of ?len] len by (simp only: un)
  have pl: "take (length payload) (drop 4 (frame payload @ rest)) = payload"
    by (simp add: frame_def)
  define buf where "buf = frame payload @ rest"
  have l4: "\<not> length buf < 4" by (simp add: buf_def frame_def)
  have fit: "\<not> 4 + length payload > length buf" by (simp add: buf_def frame_def)
  have km: "\<not> k_max_msg < length payload" using len by simp
  have "try_one_request (conn\<lparr>incoming := buf\<rparr>) g
       = Some (False, conn\<lparr>incoming := buf, want_close := True\<rparr>, g)"
    using l4 fit km
    by (simp add: try_one_request_def Let_def hd [folded buf_def] un sz pl [folded buf_def] rej)
  then show ?thesis by (simp only: buf_def)
qed

lemma kv_try_one_request_reject:
  "kv_incoming conn \<noteq> [] \<Longrightarrow> kv_parse_req (kv_incoming conn) [] = None \<Longrightarrow>
   kv_try_one_request conn m = (False, conn\<lparr>kv_want_close := True\<rparr>, m)"
  by (simp add: kv_try_one_request_def)

text \<open>
  C7, as amended. \<^verbatim>\<open>parse_req\<close> accepts a payload exactly when it is the encoding
  \<open>nstr | (len | bytes) \<times> nstr\<close> of an argument vector of at most \<^verbatim>\<open>k_max_args\<close> strings
  (200 000 in CustomHashtable/main.cpp, 16 in the basic key-value store), and then returns
  that vector, the strings intact and in order; it rejects every other payload: a count
  above the limit, a length prefix or a string body that runs past the end, or bytes left
  after the last string. A rejected payload makes \<^verbatim>\<open>try_one_request\<close> set
  \<^verbatim>\<open>want_close\<close> and return false.
\<close>

theorem parse_req_accepts_exactly:
  "(parse_req buf [] = Some cmd \<longleftrightarrow> encodes 200000 buf cmd)
   \<and> (parse_req buf [] = None \<longleftrightarrow> (\<nexists>c. encodes 200000 buf c))
   \<and> (kv_parse_req buf [] = Some cmd \<longleftrightarrow> encodes 16 buf cmd)
   \<and> (kv_parse_req buf [] = None \<longleftrightarrow> (\<nexists>c. encodes 16 buf c))
   \<and> (length payload \<le> k_max_msg \<and> parse_req payload [] = None \<longrightarrow>
        try_one_request (conn\<lparr>incoming := frame payload @ rest\<rparr>) g
          = Some (False, conn\<lparr>incoming := frame payload @ rest, want_close := True\<rparr>, g))
   \<and> (kv_incoming kc \<noteq> [] \<and> kv_parse_req (kv_incoming kc) [] = None \<longrightarrow>
        kv_try_one_request kc m = (False, kc\<lparr>kv_want_close := True\<rparr>, m))"
proof -
  have a: "parse_req b [] = Some c \<longleftrightarrow> encodes 200000 b c" for b c
    using parse_req_lim_iff [of 200000 b c]
    by (simp add: parse_req_def k_max_args_def encodes_def)
  have b: "kv_parse_req b [] = Some c \<longleftrightarrow> encodes 16 b c" for b c
    using parse_req_lim_iff [of 16 b c]
    by (simp add: kv_parse_req_def kv_k_max_args_def encodes_def)
  have a': "parse_req buf [] = None \<longleftrightarrow> (\<nexists>c. encodes 200000 buf c)"
    using a [of buf] by (cases "parse_req buf []") auto
  have b': "kv_parse_req buf [] = None \<longleftrightarrow> (\<nexists>c. encodes 16 buf c)"
    using b [of buf] by (cases "kv_parse_req buf []") auto
  show ?thesis
    using a [of buf cmd] b [of buf cmd] a' b' try_one_request_reject [where payload = payload and conn = conn and rest = rest and g = g]
      kv_try_one_request_reject [where conn = kc and m = m]
    by blast
qed

lemma bad_payload: "parse_req [1, 0, 0, 0] [] = None \<and> kv_parse_req [1, 0, 0, 0] [] = None"
  by (simp add: parse_req_def kv_parse_req_def parse_req_lim_def read_u32_def u32_of_bytes_def
      k_max_args_def kv_k_max_args_def parse_req_loop.simps)

theorem parse_req_accepts_exactly_witness:
  "parse_req (encode_req [str ''get'', str ''foo'']) [] = Some [str ''get'', str ''foo'']
   \<and> kv_parse_req (encode_req [str ''get'', str ''foo'']) [] = Some [str ''get'', str ''foo'']
   \<and> length [1, 0, 0, 0 :: byte] \<le> k_max_msg \<and> parse_req [1, 0, 0, 0] [] = None
   \<and> try_one_request ((new_conn 5)\<lparr>incoming := frame [1, 0, 0, 0]\<rparr>) g_data0
          = Some (False, (new_conn 5)\<lparr>incoming := frame [1, 0, 0, 0], want_close := True\<rparr>, g_data0)
   \<and> kv_try_one_request \<lparr>kv_incoming = [1, 0, 0, 0], kv_outgoing = [], kv_want_close = False\<rparr> Map.empty
          = (False, \<lparr>kv_incoming = [1, 0, 0, 0], kv_outgoing = [], kv_want_close = True\<rparr>, Map.empty)"
  using parse_req_accepts_exactly [where buf = "encode_req [str ''get'', str ''foo'']"
      and cmd = "[str ''get'', str ''foo'']" and payload = "[1, 0, 0, 0]" and conn = "new_conn 5"
      and rest = "[]" and g = g_data0
      and kc = "\<lparr>kv_incoming = [1, 0, 0, 0], kv_outgoing = [], kv_want_close = False\<rparr>"
      and m = Map.empty]
    bad_payload
  by (simp add: encodes_def fits_u32_def k_max_msg_def str_def)

text \<open>
  C7 as stated fails: the payload that declares 17 empty strings and holds exactly those
  is within the stated limit of 200 000, has no prefix or body past its end and no
  trailing byte, yet \<^verbatim>\<open>parse_req\<close> of the basic key-value store rejects it.
\<close>

theorem kv_parse_req_limit_counterexample:
  "encodes 200000 (encode_req (replicate 17 [])) (replicate 17 [])
   \<and> kv_parse_req (encode_req (replicate 17 [])) [] = None"
  by (simp add: encodes_def fits_u32_def list_all_length kv_parse_req_def parse_req_lim_def
      encode_req_def kv_k_max_args_def unat_of_nat_u32)

section \<open>Proofs: pipelined requests\<close>

lemma make_response_append: "make_response resp out = out @ make_response resp []"
  by (simp add: make_response_def buf_append_def Let_def)

lemma well_formed_frameD:
  assumes "well_formed_frame f"
  obtains payload cmd where "f = frame payload" "length payload \<le> k_max_msg"
    "parse_req payload [] = Some cmd" "drop 4 f = payload"
proof -
  let ?len = "u32_of_bytes (take 4 f)"
  from assms have a: "4 \<le> length f" "unat ?len \<le> k_max_msg" "length f = 4 + unat ?len"
    "parse_req (drop 4 f) [] \<noteq> None"
    by (simp_all add: well_formed_frame_def)
  then obtain cmd where c: "parse_req (drop 4 f) [] = Some cmd" by auto
  have l: "length (drop 4 f) = unat ?len" using a by simp
  have "bytes_of_u32 ?len = take 4 f"
    using a(1) by (intro bytes_of_u32_of_bytes) simp
  moreover have "of_nat (length (drop 4 f)) = ?len"
    by (simp only: l) simp
  ultimately have "frame (drop 4 f) = take 4 f @ drop 4 f"
    unfolding frame_def by (simp only:)
  then have "f = frame (drop 4 f)" by simp
  with a l c show ?thesis using that [of "drop 4 f" cmd] by simp
qed

lemma length_frame [simp]: "length (frame payload) = 4 + length payload"
  by (simp add: frame_def)

lemma try_one_request_incomplete:
  assumes len: "length payload \<le> k_max_msg"
    and short: "length buf < length (frame payload)"
    and pre: "buf = take (length buf) (frame payload)"
  shows "try_one_request (conn\<lparr>incoming := buf\<rparr>) g = Some (False, conn\<lparr>incoming := buf\<rparr>, g)"
proof (cases "length buf < 4")
  case True
  then show ?thesis by (simp add: try_one_request_def)
next
  case False
  let ?len = "of_nat (length payload) :: 32 word"
  have lt: "length payload < 2 ^ 32" using len by (simp add: k_max_msg_def)
  have un: "unat ?len = length payload" by (rule unat_of_nat_u32 [OF lt])
  have "take 4 buf = take 4 (frame payload)"
    using False by (subst pre) (simp add: min_def)
  then have hd: "u32_of_bytes (take 4 buf) = ?len" by (simp add: frame_def)
  have sz: "unat (4 + ?len) = 4 + length payload"
    using unat_frame_size [of ?len] len by (simp only: un)
  show ?thesis
    using False short len by (simp add: try_one_request_def Let_def hd un sz)
qed

lemma respond_all_append_eq:
  "respond_all (xs @ ys) g =
     (case respond_all xs g of
        None \<Rightarrow> None
      | Some (rs1, g') \<Rightarrow>
          (case respond_all ys g' of None \<Rightarrow> None | Some (rs2, g'') \<Rightarrow> Some (rs1 @ rs2, g'')))"
  by (induction xs arbitrary: g) (simp_all split: option.splits)

lemma respond_all_append:
  "respond_all (xs @ ys) g = Some (rs, g'') \<longleftrightarrow>
   (\<exists>rs1 g' rs2. respond_all xs g = Some (rs1, g') \<and> respond_all ys g' = Some (rs2, g'')
       \<and> rs = rs1 @ rs2)"
  by (auto simp: respond_all_append_eq split: option.splits)

lemma respond_all_length: "respond_all fs g = Some (rs, g') \<Longrightarrow> length rs = length fs"
  by (induction fs arbitrary: g rs) (auto split: option.splits)

lemma nfit_le: "nfit fs n \<le> length fs"
  by (induction fs arbitrary: n) auto

lemma nfit_fits: "length (concat (take (nfit fs n) fs)) \<le> n"
proof (induction fs arbitrary: n)
  case Nil
  show ?case by simp
next
  case (Cons f fs)
  show ?case using Cons.IH [of "n - length f"] by auto
qed

lemma nfit_rest: "nfit (drop (nfit fs n) fs) (n - length (concat (take (nfit fs n) fs))) = 0"
proof (induction fs arbitrary: n)
  case Nil
  show ?case by simp
next
  case (Cons f fs)
  show ?case using Cons.IH [of "n - length f"] by (auto simp: diff_diff_left)
qed

lemma Conn_update_swap:
  "c\<lparr>outgoing := a, incoming := b\<rparr> = c\<lparr>incoming := b, outgoing := a\<rparr>"
  by (cases c) simp

lemma framer_loop_drains:
  assumes "list_all well_formed_frame fs"
    and "buf @ later = concat fs"
    and "respond_all (take (nfit fs (length buf)) fs) g = Some (rs, g')"
  shows "framer_loop (conn\<lparr>incoming := buf\<rparr>, g)
       = Some (conn\<lparr>incoming := drop (length (concat (take (nfit fs (length buf)) fs))) buf,
                    outgoing := outgoing conn @ concat rs\<rparr>, g')"
  using assms
proof (induction fs arbitrary: buf conn g rs)
  case Nil
  then show ?case
    by (simp add: framer_loop.simps try_one_request_def)
next
  case (Cons f fs)
  from Cons.prems(1) have wf: "well_formed_frame f" and wfs: "list_all well_formed_frame fs"
    by simp_all
  from wf obtain payload cmd where f: "f = frame payload" and len: "length payload \<le> k_max_msg"
    and cmd: "parse_req payload [] = Some cmd" and dr: "drop 4 f = payload"
    by (rule well_formed_frameD)
  show ?case
  proof (cases "length f \<le> length buf")
    case False
    then have short: "length buf < length (frame payload)" by (simp add: f)
    from Cons.prems(2) have "take (length buf) (buf @ later) = take (length buf) (f @ concat fs)"
      by simp
    then have pre: "buf = take (length buf) (frame payload)"
      using False by (simp add: f)
    from False Cons.prems(3) have "rs = []" "g' = g" by simp_all
    then show ?thesis
      using False try_one_request_incomplete [OF len short pre, of conn g]
      by (simp add: framer_loop.simps)
  next
    case True
    define buf' where "buf' = drop (length f) buf"
    from Cons.prems(2) True have b: "buf = f @ buf'"
      unfolding buf'_def
      by (metis append_eq_append_conv_if append_take_drop_id concat.simps(2))
    with Cons.prems(2) have later: "buf' @ later = concat fs" by simp
    have n: "nfit (f # fs) (length buf) = Suc (nfit fs (length buf'))"
      using True by (simp add: buf'_def)
    from Cons.prems(3) obtain resp g1 rs' where
      r: "do_request cmd Response0 g = Some (resp, g1)" and
      rest: "respond_all (take (nfit fs (length buf')) fs) g1 = Some (rs', g')" and
      rs: "rs = make_response resp [] # rs'"
      unfolding n by (auto simp: dr cmd split: option.splits)
    define out1 where "out1 = make_response resp (outgoing conn)"
    have out1: "out1 = outgoing conn @ make_response resp []"
      unfolding out1_def by (rule make_response_append)
    have step: "try_one_request (conn\<lparr>incoming := buf\<rparr>) g
       = Some (True, conn\<lparr>incoming := buf', outgoing := out1\<rparr>, g1)"
      unfolding b f out1_def by (rule try_one_request_frame [OF len cmd r])
    have ih: "framer_loop ((conn\<lparr>outgoing := out1\<rparr>)\<lparr>incoming := buf'\<rparr>, g1)
       = Some ((conn\<lparr>outgoing := out1\<rparr>)
                  \<lparr>incoming := drop (length (concat (take (nfit fs (length buf')) fs))) buf',
                   outgoing := outgoing (conn\<lparr>outgoing := out1\<rparr>) @ concat rs'\<rparr>, g')"
      by (rule Cons.IH [OF wfs later rest])
    have "framer_loop (conn\<lparr>incoming := buf\<rparr>, g)
            = framer_loop ((conn\<lparr>outgoing := out1\<rparr>)\<lparr>incoming := buf'\<rparr>, g1)"
      by (subst framer_loop.simps) (simp add: step Conn_update_swap)
    also note ih
    finally show ?thesis
      by (simp add: n rs out1) (simp add: b)
  qed
qed


lemma length_le_encode_req:
  assumes "s \<in> set cmd"
  shows "length s \<le> length (encode_req cmd)"
proof -
  have "length (encode_str s) \<in> set (map length (map encode_str cmd))"
    using assms by force
  then have "length (encode_str s) \<le> sum_list (map length (map encode_str cmd))"
    by (rule member_le_sum_list) simp
  then show ?thesis
    by (simp add: encode_req_def length_concat encode_str_def)
qed

lemma parse_req_strings_bounded:
  assumes "parse_req payload [] = Some cmd" "s \<in> set cmd"
  shows "length s \<le> length payload"
proof -
  from assms(1) have "payload = encode_req cmd"
    using parse_req_lim_iff [of k_max_args payload cmd]
    by (simp add: parse_req_def k_max_args_def)
  with length_le_encode_req [OF assms(2)] show ?thesis by simp
qed

lemma do_request_total:
  assumes vb: "vals_bounded g" and cb: "\<And>s. s \<in> set cmd \<Longrightarrow> length s \<le> k_max_msg"
  shows "\<exists>resp g'. do_request cmd Response0 g = Some (resp, g') \<and> vals_bounded g'"
proof -
  have v: "length (val (heap g p)) \<le> k_max_msg" for p
    using vb by (simp add: vals_bounded_def)
  have c2: "length cmd = 3 \<Longrightarrow> length (cmd ! 2) \<le> k_max_msg"
    by (rule cb) simp
  show ?thesis
    using v c2
    by (auto simp: do_request_def do_get_def do_set_def do_del_def vals_bounded_def Let_def
        entry_at_def split: prod.splits)
qed

lemma respond_all_total:
  assumes "list_all well_formed_frame fs" "vals_bounded g"
  shows "\<exists>rs g'. respond_all fs g = Some (rs, g') \<and> vals_bounded g'"
  using assms
proof (induction fs arbitrary: g)
  case Nil
  then show ?case by simp
next
  case (Cons f fs)
  from Cons.prems(1) have wf: "well_formed_frame f" and wfs: "list_all well_formed_frame fs"
    by simp_all
  from wf obtain payload cmd where len: "length payload \<le> k_max_msg"
    and cmd: "parse_req payload [] = Some cmd" and dr: "drop 4 f = payload"
    by (rule well_formed_frameD)
  have "length s \<le> k_max_msg" if "s \<in> set cmd" for s
    using parse_req_strings_bounded [OF cmd that] len by simp
  from do_request_total [OF Cons.prems(2) this]
  obtain resp g1 where r: "do_request cmd Response0 g = Some (resp, g1)" and vb: "vals_bounded g1"
    by blast
  from Cons.IH [OF wfs vb] obtain rs g' where "respond_all fs g1 = Some (rs, g')" "vals_bounded g'"
    by blast
  then show ?case by (simp add: dr cmd r)
qed

lemma handle_write_benign:
  assumes "wr \<noteq> Write_Error" "handle_write c wr = Some (c', wire)"
  shows "wire @ outgoing c' = outgoing c \<and> incoming c' = incoming c
         \<and> want_close c' = want_close c"
  using assms
  by (cases wr) (auto simp: handle_write_def buf_consume_def Let_def split: if_splits)

lemma concat_drop_take:
  "drop (length (concat (take j fs))) (concat fs) = concat (drop j fs)"
proof -
  have "concat fs = concat (take j fs) @ concat (drop j fs)"
    by (metis append_take_drop_id concat_append)
  then show ?thesis by (metis append_eq_conv_conj)
qed

lemma serve_events_inv:
  assumes "list_all benign evs" "list_all well_formed_frame fs"
    "incoming (conn_of w) @ concat (map chunk_of evs) = concat fs"
    "nfit fs (length (incoming (conn_of w))) = 0"
    "respond_all fs (glob w) = Some (rs, g_end)"
    "\<not> want_close (conn_of w)"
    "serve_events evs w = Some w'"
  shows "wire_out w' @ outgoing (conn_of w') = wire_out w @ outgoing (conn_of w) @ concat rs
         \<and> incoming (conn_of w') = [] \<and> \<not> want_close (conn_of w') \<and> glob w' = g_end"
  using assms
proof (induction evs arbitrary: w fs rs)
  case Nil
  have "fs = []"
  proof (cases fs)
    case (Cons f fs')
    with Nil.prems(3) have "length f \<le> length (incoming (conn_of w))" by simp
    with Nil.prems(4) Cons show ?thesis by simp
  qed simp
  with Nil.prems show ?case by simp
next
  case (Cons e evs)
  let ?c = "conn_of w" and ?g = "glob w"
  from Cons.prems(1) have be: "benign e" and bes: "list_all benign evs" by simp_all
  from Cons.prems(7) obtain w1 where s1: "serve_event e w = Some w1"
    and s2: "serve_events evs w1 = Some w'"
    by (auto split: option.splits)
  have quiet: ?case
    if q: "incoming (conn_of w1) = incoming ?c" "\<not> want_close (conn_of w1)" "glob w1 = ?g"
      "wire_out w1 @ outgoing (conn_of w1) = wire_out w @ outgoing ?c" "chunk_of e = []"
  proof -
    have "wire_out w' @ outgoing (conn_of w') = wire_out w1 @ outgoing (conn_of w1) @ concat rs
         \<and> incoming (conn_of w') = [] \<and> \<not> want_close (conn_of w') \<and> glob w' = g_end"
      using Cons.prems(3,4,5) q
      by (intro Cons.IH [OF bes Cons.prems(2) _ _ _ _ s2]) simp_all
    then show ?thesis using q(4) by (metis append.assoc)
  qed
  show ?case
  proof (cases e)
    case (Writable wr)
    with be have ok: "wr \<noteq> Write_Error" by simp
    from s1 Writable obtain c' wire where hw: "handle_write ?c wr = Some (c', wire)"
      and w1: "w1 = w\<lparr>conn_of := c', wire_out := wire_out w @ wire\<rparr>"
      by (auto split: if_splits option.splits)
    from handle_write_benign [OF ok hw] Cons.prems(6) show ?thesis
      by (intro quiet) (simp_all add: w1 Writable)
  next
    case (Readable rd wr)
    show ?thesis
    proof (cases rd)
      case Read_EAGAIN
      with s1 Readable have "w1 = w\<lparr>conn_of := ?c, glob := ?g, wire_out := wire_out w @ []\<rparr>"
        by (auto simp: handle_read_def split: if_splits)
      with Cons.prems(6) show ?thesis
        by (intro quiet) (simp_all add: Readable Read_EAGAIN)
    next
      case Read_Error
      with be Readable show ?thesis by simp
    next
      case (Read_Bytes d)
      with be Readable have d: "d \<noteq> []" and ok: "wr \<noteq> Write_Error" by simp_all
      define buf where "buf = incoming ?c @ d"
      define j where "j = nfit fs (length buf)"
      define L where "L = length (concat (take j fs))"
      have stream: "buf @ concat (map chunk_of evs) = concat fs"
        using Cons.prems(3) by (simp add: buf_def Readable Read_Bytes)
      have "respond_all (take j fs @ drop j fs) ?g = Some (rs, g_end)"
        using Cons.prems(5) by simp
      then obtain rs1 g1 rs2 where r1: "respond_all (take j fs) ?g = Some (rs1, g1)"
        and r2: "respond_all (drop j fs) g1 = Some (rs2, g_end)" and rs: "rs = rs1 @ rs2"
        unfolding respond_all_append by blast
      define c1 where "c1 = ?c\<lparr>incoming := drop L buf, outgoing := outgoing ?c @ concat rs1\<rparr>"
      have loop: "framer_loop (?c\<lparr>incoming := buf\<rparr>, ?g) = Some (c1, g1)"
        unfolding c1_def L_def j_def
        by (rule framer_loop_drains [OF Cons.prems(2) stream r1 [unfolded j_def]])
      have hr: "handle_read ?c ?g rd wr
          = (if length (outgoing c1) > 0 then
               (case handle_write (c1\<lparr>want_read := False, want_write := True\<rparr>) wr of
                  None \<Rightarrow> None | Some (conn2, wire) \<Rightarrow> Some (conn2, g1, wire))
             else Some (c1, g1, []))"
        using d by (simp add: handle_read_def Read_Bytes buf_append_def loop [unfolded buf_def])
      from s1 Readable obtain c2 g2 wire where h: "handle_read ?c ?g rd wr = Some (c2, g2, wire)"
        and w1: "w1 = w\<lparr>conn_of := c2, glob := g2, wire_out := wire_out w @ wire\<rparr>"
        by (auto split: if_splits option.splits)
      have nc1: "\<not> want_close c1" using Cons.prems(6) by (simp add: c1_def)
      have c2: "g2 = g1 \<and> wire @ outgoing c2 = outgoing c1 \<and> incoming c2 = incoming c1
                \<and> \<not> want_close c2"
      proof (cases "length (outgoing c1) > 0")
        case False
        with h hr nc1 show ?thesis by simp
      next
        case True
        with h hr obtain hw: "handle_write (c1\<lparr>want_read := False, want_write := True\<rparr>) wr
            = Some (c2, wire)" and "g2 = g1"
          by (auto split: option.splits)
        with handle_write_benign [OF ok hw] nc1 show ?thesis by simp
      qed
      have Lle: "L \<le> length buf" unfolding L_def j_def by (rule nfit_fits)
      have inc: "incoming (conn_of w1) @ concat (map chunk_of evs) = concat (drop j fs)"
      proof -
        have "drop L buf @ concat (map chunk_of evs) = drop L (buf @ concat (map chunk_of evs))"
          using Lle by simp
        also have "\<dots> = concat (drop j fs)"
          unfolding stream L_def by (rule concat_drop_take)
        finally show ?thesis using c2 by (simp add: w1 c1_def)
      qed
      have nf: "nfit (drop j fs) (length (incoming (conn_of w1))) = 0"
        using nfit_rest [of fs "length buf"] c2 by (simp add: w1 c1_def j_def L_def)
      have wfd: "list_all well_formed_frame (drop j fs)"
        using Cons.prems(2) by (simp add: list_all_iff) (meson in_set_dropD)
      have "wire_out w' @ outgoing (conn_of w') = wire_out w1 @ outgoing (conn_of w1) @ concat rs2
         \<and> incoming (conn_of w') = [] \<and> \<not> want_close (conn_of w') \<and> glob w' = g_end"
        using c2 r2
        by (intro Cons.IH [OF bes wfd inc nf _ _ s2]) (simp_all add: w1)
      moreover have "wire_out w1 @ outgoing (conn_of w1) = wire_out w @ outgoing ?c @ concat rs1"
      proof -
        have "wire_out w1 @ outgoing (conn_of w1) = wire_out w @ (wire @ outgoing c2)"
          by (simp add: w1)
        also have "wire @ outgoing c2 = outgoing ?c @ concat rs1"
          using c2 by (simp add: c1_def)
        finally show ?thesis .
      qed
      ultimately show ?thesis by (simp add: rs)
    qed
  qed
qed

lemma nfit_nothing:
  "list_all well_formed_frame fs \<Longrightarrow> nfit fs 0 = 0"
  by (cases fs) (auto simp: well_formed_frame_def)

text \<open>
  Every partition of the stream into non-empty chunks can be served: one readable event
  per chunk, each followed by a write that takes all of \<^verbatim>\<open>outgoing\<close>.
\<close>

lemma every_partition_can_be_served_aux:
  assumes "list_all well_formed_frame fs" "list_all (\<lambda>d. d \<noteq> []) chunks"
    "incoming c @ concat chunks = concat fs"
    "nfit fs (length (incoming c)) = 0"
    "vals_bounded g" "want_read c" "outgoing c = []"
  shows "\<exists>evs w'. list_all benign evs \<and> map chunk_of evs = chunks
           \<and> serve_events evs \<lparr>conn_of = c, glob = g, wire_out = out\<rparr> = Some w'"
  using assms
proof (induction chunks arbitrary: fs c g out)
  case Nil
  show ?case by (rule exI [of _ "[]"]) simp
next
  case (Cons d chunks)
  from Cons.prems(2) have d: "d \<noteq> []" and ds: "list_all (\<lambda>d. d \<noteq> []) chunks" by simp_all
  define buf where "buf = incoming c @ d"
  define j where "j = nfit fs (length buf)"
  define L where "L = length (concat (take j fs))"
  have stream: "buf @ concat chunks = concat fs"
    using Cons.prems(3) by (simp add: buf_def)
  from respond_all_total [OF Cons.prems(1,5)] obtain rs g_end where
    "respond_all (take j fs @ drop j fs) g = Some (rs, g_end)" by auto
  then obtain rs1 g1 where r1: "respond_all (take j fs) g = Some (rs1, g1)"
    unfolding respond_all_append by blast
  have wft: "list_all well_formed_frame (take j fs)"
    using Cons.prems(1) by (simp add: list_all_iff) (meson in_set_takeD)
  from respond_all_total [OF wft Cons.prems(5)] r1 have vb1: "vals_bounded g1" by simp
  define c1 where "c1 = c\<lparr>incoming := drop L buf, outgoing := outgoing c @ concat rs1\<rparr>"
  have loop: "framer_loop (c\<lparr>incoming := buf\<rparr>, g) = Some (c1, g1)"
    unfolding c1_def L_def j_def
    by (rule framer_loop_drains [OF Cons.prems(1) stream r1 [unfolded j_def]])
  define wr where "wr = Wrote (length (outgoing c1))"
  define c2 where "c2 = (if outgoing c1 = [] then c1
                         else c1\<lparr>outgoing := [], want_read := True, want_write := False\<rparr>)"
  have hr: "handle_read c g (Read_Bytes d) wr = Some (c2, g1, outgoing c1)"
    using d
    by (cases "outgoing c1 = []")
       (simp_all add: handle_read_def buf_append_def loop [unfolded buf_def] handle_write_def
         wr_def c2_def buf_consume_def Let_def)
  have c2: "want_read c2" "outgoing c2 = []" "incoming c2 = drop L buf"
    using Cons.prems(6) by (simp_all add: c2_def c1_def)
  let ?e = "Readable (Read_Bytes d) wr"
  have s1: "serve_event ?e \<lparr>conn_of = c, glob = g, wire_out = out\<rparr>
      = Some \<lparr>conn_of = c2, glob = g1, wire_out = out @ outgoing c1\<rparr>"
    using Cons.prems(6) by (simp add: hr)
  have Lle: "L \<le> length buf" unfolding L_def j_def by (rule nfit_fits)
  have inc: "incoming c2 @ concat chunks = concat (drop j fs)"
  proof -
    have "drop L buf @ concat chunks = drop L (buf @ concat chunks)"
      using Lle by simp
    also have "\<dots> = concat (drop j fs)"
      unfolding stream L_def by (rule concat_drop_take)
    finally show ?thesis by (simp add: c2)
  qed
  have nf: "nfit (drop j fs) (length (incoming c2)) = 0"
    using nfit_rest [of fs "length buf"] by (simp add: c2 j_def L_def)
  have wfd: "list_all well_formed_frame (drop j fs)"
    using Cons.prems(1) by (simp add: list_all_iff) (meson in_set_dropD)
  from Cons.IH [OF wfd ds inc nf vb1 c2(1,2), of "out @ outgoing c1"]
  obtain evs w' where evs: "list_all benign evs" "map chunk_of evs = chunks"
    "serve_events evs \<lparr>conn_of = c2, glob = g1, wire_out = out @ outgoing c1\<rparr> = Some w'"
    by blast
  show ?case
    by (rule exI [of _ "?e # evs"], rule exI [of _ w'])
       (use evs d s1 in \<open>simp add: wr_def\<close>)
qed

lemma every_partition_can_be_served:
  assumes "list_all well_formed_frame fs" "list_all (\<lambda>d. d \<noteq> []) chunks"
    "concat chunks = concat fs" "vals_bounded g0"
  shows "\<exists>evs w'. list_all benign evs \<and> map chunk_of evs = chunks
           \<and> serve_events evs \<lparr>conn_of = new_conn connfd, glob = g0, wire_out = []\<rparr> = Some w'"
  using assms nfit_nothing [OF assms(1)]
  by (intro every_partition_can_be_served_aux) (simp_all add: new_conn_def)

text \<open>
  C8. Let \<open>fs\<close> be well-formed request frames and let a schedule of readable and writable
  events deliver their concatenation to a fresh connection, cut into chunks in any way, with
  no failing system call and no end of stream. Whenever the schedule can be served (each
  event meets the event loop's assertion for it), the bytes written to the socket followed
  by the bytes still queued in \<^verbatim>\<open>outgoing\<close> are exactly the response frames of the
  requests, one per request and in the order of the requests; nothing is left in
  \<^verbatim>\<open>incoming\<close>, and the connection is not marked for closing. \<open>framer_loop_drains\<close> above
  is the step after each chunk: every complete buffered frame is consumed and answered, and
  the incomplete rest stays buffered. \<open>every_partition_can_be_served\<close> shows that every
  partition into non-empty chunks has such a schedule.
\<close>

theorem pipelined_requests_answered_in_order:
  assumes "list_all well_formed_frame fs"
    and "list_all benign evs"
    and "concat (map chunk_of evs) = concat fs"
    and "vals_bounded g0"
    and "serve_events evs \<lparr>conn_of = new_conn connfd, glob = g0, wire_out = []\<rparr> = Some w'"
  shows "\<exists>rs. respond_all fs g0 = Some (rs, glob w') \<and> length rs = length fs
           \<and> wire_out w' @ outgoing (conn_of w') = concat rs
           \<and> incoming (conn_of w') = [] \<and> \<not> want_close (conn_of w')"
proof -
  from respond_all_total [OF assms(1,4)] obtain rs g' where r: "respond_all fs g0 = Some (rs, g')"
    by blast
  let ?w = "\<lparr>conn_of = new_conn connfd, glob = g0, wire_out = []\<rparr>"
  have "wire_out w' @ outgoing (conn_of w') = wire_out ?w @ outgoing (conn_of ?w) @ concat rs
         \<and> incoming (conn_of w') = [] \<and> \<not> want_close (conn_of w') \<and> glob w' = g'"
    using assms(3) r nfit_nothing [OF assms(1)]
    by (intro serve_events_inv [OF assms(2,1) _ _ _ _ assms(5)])
       (simp_all add: new_conn_def)
  with r respond_all_length [OF r] show ?thesis by (simp add: new_conn_def)
qed

subsection \<open>A concrete run\<close>

lemmas hm_eval = hm_lookup_def hm_insert_def hm_delete_def hm_help_rehashing_def hm_help_loop.simps
  hm_trigger_rehashing_def h_init_def h_insert_def h_lookup_def h_detach_def HMap0_def HTab0_def
  k_max_load_factor_def k_rehashing_work_def nullptr_def container_of_def hm_size_def

lemmas srv_eval = do_request_def do_get_def do_set_def do_del_def probe_def entry_at_def
  entry_hcode_def entry_eq_def offsetof_Entry_node_def sizeof_Entry_def g_data0_def Entry0_def
  Response0_def RES_OK_def RES_ERR_def RES_NX_def k_max_msg_def str_hash_def str_def Let_def


lemmas wire_eval = parse_req_def parse_req_lim_def parse_req_loop.simps read_u32_def read_str_def
  u32_of_bytes_def bytes_of_u32_def k_max_args_def frame_def encode_req_def encode_str_def
  make_response_def buf_append_def buf_consume_def

lemmas loop_eval = try_one_request_def framer_loop.simps handle_read_def handle_write_def
  new_conn_def

lemma demo_stream: "concat demo_frames = [21,0,0,0, 3,0,0,0, 3,0,0,0,115,101,116, 1,0,0,0,97, 1,0,0,0,49,
   16,0,0,0, 2,0,0,0, 3,0,0,0,103,101,116, 1,0,0,0,97]"
  by (simp add: demo_frames_def frame_def encode_req_def encode_str_def str_def bytes_of_u32_def)

lemma demo_events_bytes: "demo_events =
     [Readable (Read_Bytes [21,0,0,0, 3]) Write_EAGAIN,
      Readable (Read_Bytes [0,0,0, 3,0,0,0,115,101,116, 1,0,0,0,97, 1,0,0,0,49, 16,0,0]) (Wrote 3),
      Writable (Wrote 5),
      Readable (Read_Bytes [0, 2,0,0,0, 3,0,0,0,103,101,116, 1,0,0,0,97]) (Wrote 100)]"
  by (simp add: demo_events_def demo_stream)

lemma demo_wf: "list_all well_formed_frame demo_frames"
  by (simp add: demo_frames_def well_formed_frame_def wire_eval str_def k_max_msg_def)

lemma demo_benign: "list_all benign demo_events"
  by (simp add: demo_events_bytes)

lemma demo_chunks: "concat (map chunk_of demo_events) = concat demo_frames"
  by (simp add: demo_events_bytes demo_stream)

lemma demo_runs:
  "\<exists>w'. serve_events demo_events \<lparr>conn_of = new_conn 5, glob = g_data0, wire_out = []\<rparr> = Some w'
        \<and> wire_out w' = [4,0,0,0, 0,0,0,0, 5,0,0,0, 0,0,0,0, 49] \<and> outgoing (conn_of w') = []"
  by (simp add: demo_events_bytes loop_eval wire_eval srv_eval hm_eval)

lemma g_data0_bounded: "vals_bounded g_data0"
  by (simp add: vals_bounded_def g_data0_def Entry0_def)

theorem pipelined_requests_answered_in_order_witness:
  "list_all well_formed_frame demo_frames \<and> list_all benign demo_events
   \<and> concat (map chunk_of demo_events) = concat demo_frames \<and> vals_bounded g_data0
   \<and> (\<exists>w'. serve_events demo_events \<lparr>conn_of = new_conn 5, glob = g_data0, wire_out = []\<rparr> = Some w'
         \<and> (\<exists>rs. respond_all demo_frames g_data0 = Some (rs, glob w') \<and> length rs = length demo_frames
           \<and> wire_out w' @ outgoing (conn_of w') = concat rs
           \<and> incoming (conn_of w') = [] \<and> \<not> want_close (conn_of w'))
         \<and> wire_out w' = [4,0,0,0, 0,0,0,0, 5,0,0,0, 0,0,0,0, 49] \<and> outgoing (conn_of w') = [])"
proof -
  from demo_runs obtain w' where
    w: "serve_events demo_events \<lparr>conn_of = new_conn 5, glob = g_data0, wire_out = []\<rparr> = Some w'"
    and o: "wire_out w' = [4,0,0,0, 0,0,0,0, 5,0,0,0, 0,0,0,0, 49]" "outgoing (conn_of w') = []"
    by blast
  from pipelined_requests_answered_in_order [OF demo_wf demo_benign demo_chunks g_data0_bounded w]
  show ?thesis using demo_wf demo_benign demo_chunks g_data0_bounded w o by blast
qed

section \<open>Sorted sets: what zset.cpp does on small sets\<close>

text \<open>
  The sets below are built by \<^verbatim>\<open>zset_insert\<close> itself from the empty set, with the first
  \<^verbatim>\<open>ZNode\<close> allocated at address 4096 and the second at 4168. Every statement is a
  computation: the definitions are unfolded and evaluated.
\<close>

lemmas avl_eval = an_def an_upd_def avl_init_def avl_height_def avl_count_def avl_update_def
  avl_fix_step_def avl_fix.simps avl_del_easy_def avl_del_def avl_offset_def avl_offset_loop.simps
  AVLNode0_def

lemmas zset_eval = zset_insert_def zset_lookup_def zset_delete_def zset_seekge_def
  zset_seekge_loop.simps znode_offset_def znode_eq_def znode_cmp_def znode_key_def znode_hcode_def
  CONTAINER_OF_def offsetof_ZNode_hnode_def offsetof_ZNode_anode_def sizeof_ZNode_def
  ZSet0_def zstore0_def ZNode0_def str_hash_def str_def Let_def

lemma tree_nodes_nullptr [simp]: "tree_nodes n h 0 = []"
  by (cases n) (simp_all add: nullptr_def)

lemma tree_nodes_numeral [simp]:
  "tree_nodes (numeral k) h q =
     (if q = 0 then []
      else tree_nodes (pred_numeral k) h (left (an h q)) @ [q]
           @ tree_nodes (pred_numeral k) h (right (an h q)))"
  by (simp add: numeral_eq_Suc nullptr_def)

text \<open>
  C2 fails on the code. \<^verbatim>\<open>zset_insert\<close> of an absent member initialises the new node,
  puts it into the hash map and makes \<^verbatim>\<open>zset->root\<close> the result of \<^verbatim>\<open>avl_fix\<close> on that node
  alone: the node is never linked into the tree that \<^verbatim>\<open>zset->root\<close> held. After inserting
  \<open>a\<close> and then \<open>b\<close> into the empty set the hash map holds both members (size 2, both
  found by \<^verbatim>\<open>zset_lookup\<close>), and the tree rooted at \<^verbatim>\<open>zset->root\<close> holds the node of \<open>b\<close>
  only, with count 1.
\<close>

theorem zset_insert_second_member_drops_first:
  "(case zset_insert ZSet0 zstore0 (str ''a'') 1 of
      None \<Rightarrow> False
    | Some (new1, z1, st1) \<Rightarrow>
        new1 \<and>
        (case zset_insert z1 st1 (str ''b'') 2 of
           None \<Rightarrow> False
         | Some (new2, z2, st2) \<Rightarrow>
             new2 \<and> hm_size (hmap z2) = 2
             \<and> snd (zset_lookup z2 st2 (str ''a'')) = 4096
             \<and> snd (zset_lookup z2 st2 (str ''b'')) = 4168
             \<and> root z2 = 4168 + offsetof_ZNode_anode
             \<and> tree_nodes 8 (znodes st2) (root z2) = [4168 + offsetof_ZNode_anode]
             \<and> count (an (znodes st2) (root z2)) = 1))"
  by (simp add: zset_eval avl_eval hm_eval)

text \<open>
  The same defect seen from \<^verbatim>\<open>zset_delete\<close>: deleting \<open>a\<close> from that set leaves \<open>b\<close> in
  the hash map and an empty tree.
\<close>

lemma zset_delete_of_one_member_empties_tree:
  "(case zset_insert ZSet0 zstore0 (str ''a'') 1 of
      None \<Rightarrow> False
    | Some (new1, z1, st1) \<Rightarrow>
        (case zset_insert z1 st1 (str ''b'') 2 of
           None \<Rightarrow> False
         | Some (new2, z2, st2) \<Rightarrow>
             (case zset_delete z2 st2 4096 of
                None \<Rightarrow> False
              | Some (z3, st3) \<Rightarrow>
                  hm_size (hmap z3) = 1
                  \<and> snd (zset_lookup z3 st3 (str ''b'')) = 4168
                  \<and> root z3 = nullptr)))"
  by (simp add: zset_eval avl_eval hm_eval)

text \<open>
  C5 fails on the code in its last part. With the members \<open>a\<close> (score 1) and \<open>b\<close> (score
  2) inserted, \<^verbatim>\<open>zset_insert\<close> of \<open>a\<close> with score 3 returns false and updates the score,
  but the node is not reinserted into the tree: the tree, which held \<open>b\<close>, is replaced by
  the node of \<open>a\<close> alone, while \<open>b\<close> stays in the hash map.
\<close>

theorem zset_insert_update_replaces_tree:
  "(case zset_insert ZSet0 zstore0 (str ''a'') 1 of
      None \<Rightarrow> False
    | Some (new1, z1, st1) \<Rightarrow>
        (case zset_insert z1 st1 (str ''b'') 2 of
           None \<Rightarrow> False
         | Some (new2, z2, st2) \<Rightarrow>
             tree_nodes 8 (znodes st2) (root z2) = [4168 + offsetof_ZNode_anode]
             \<and> (case zset_insert z2 st2 (str ''a'') 3 of
                   None \<Rightarrow> False
                 | Some (new3, z3, st3) \<Rightarrow>
                     \<not> new3 \<and> score (znodes st3 4096) = 3
                     \<and> snd (zset_lookup z3 st3 (str ''b'')) = 4168
                     \<and> tree_nodes 8 (znodes st3) (root z3) = [4096 + offsetof_ZNode_anode])))"
  by (simp add: zset_eval avl_eval hm_eval)

text \<open>
  What does hold of the return value: \<^verbatim>\<open>zset_insert\<close> returns true exactly when the lookup
  of the name, the one \<^verbatim>\<open>zset_lookup\<close> makes, finds no node.
\<close>

lemma zset_insert_returns_new:
  "zset_insert zset st nm sc = Some (new, zset', st') \<Longrightarrow>
   new = (snd (zset_lookup zset st nm) = nullptr)"
  by (auto simp: zset_insert_def zset_lookup_def znode_key_def znode_eq_def Let_def
      CONTAINER_OF_def container_of_def offsetof_ZNode_hnode_def
      split: prod.splits if_splits option.splits)

text \<open>
  C3 fails on the code. \<^verbatim>\<open>znode_cmp\<close> compares the names over the shorter of the two lengths
  only, so a name and a proper prefix of it compare equal. In the set whose only member is
  \<open>a\<close> with score 1, the key \<open>(1, a)\<close> is less than the query \<open>(1, ab)\<close> in the full
  lexicographic order, and \<^verbatim>\<open>zset_seekge\<close> returns the node of \<open>a\<close> where the claim has
  none.
\<close>

theorem zset_seekge_returns_smaller_key:
  "(case zset_insert ZSet0 zstore0 (str ''a'') 1 of
      None \<Rightarrow> False
    | Some (new1, z1, st1) \<Rightarrow>
        root z1 = 4096 + offsetof_ZNode_anode
        \<and> tree_nodes 8 (znodes st1) (root z1) = [4096 + offsetof_ZNode_anode]
        \<and> score (znodes st1 4096) = 1 \<and> name (znodes st1 4096) = str ''a''
        \<and> key_less (1, str ''a'') (1, str ''ab'')
        \<and> znode_cmp (znodes st1 4096) (znode_key (str ''ab'') 1) = 0
        \<and> zset_seekge z1 st1 1 (str ''ab'') = Some 4096)"
  by (simp add: zset_eval avl_eval hm_eval key_less_def)

text \<open>
  C4 fails on the code. \<^verbatim>\<open>znode_offset\<close> applies \<^verbatim>\<open>CONTAINER_OF(_, ZNode, anode)\<close> to the
  result of \<^verbatim>\<open>avl_offset\<close> without testing it, and \<^verbatim>\<open>anode\<close> is not the first member of
  \<^verbatim>\<open>ZNode\<close>: when \<^verbatim>\<open>avl_offset\<close> returns the null pointer, \<^verbatim>\<open>znode_offset\<close> returns the
  address 16 bytes below it, which is not null. In the set of one member, rank 0, the
  offset 1 is out of range; offset 0 gives the node itself.
\<close>

theorem znode_offset_out_of_range_not_null:
  "(case zset_insert ZSet0 zstore0 (str ''a'') 1 of
      None \<Rightarrow> False
    | Some (new1, z1, st1) \<Rightarrow>
        tree_nodes 8 (znodes st1) (root z1) = [4096 + offsetof_ZNode_anode]
        \<and> avl_offset (znodes st1) (4096 + offsetof_ZNode_anode) 1 = Some nullptr
        \<and> znode_offset st1 4096 1 = Some (nullptr - 16)
        \<and> nullptr - 16 \<noteq> nullptr
        \<and> znode_offset st1 4096 0 = Some 4096)"
  by (simp add: zset_eval avl_eval hm_eval)

end
